theory Spec2Isabelle
  imports Main "HOL-Library.Multiset"
begin

section \<open>Data model of \<open>lib/Compilation.js\<close>\<close>

text \<open>
  Modules and chunks are JavaScript objects: the model names them by references of type
  \<open>'m\<close> (modules) and \<open>'c\<close> (chunks), so that "the same instance" is equality of
  references. The fields of an object live in a heap, a function from references to
  records. Arrays are lists in source order, \<open>push\<close> appends at the end.
\<close>

subsection \<open>Plain objects used as dictionaries\<close>

text \<open>
  \<open>this._modules\<close>, \<open>this.assets\<close> and the local \<open>usedIds\<close> are created by the literal
  \<open>{}\<close>, so a read \<open>obj[key]\<close> that finds no own property continues in
  \<open>Object.prototype\<close>. The own properties are a map; \<open>obj_get\<close> is the read.
\<close>

datatype 'v js_lookup = Undefined | Own 'v | Inherited

definition object_prototype_names :: "string list" where
  "object_prototype_names =
     [''constructor'', ''__proto__'', ''hasOwnProperty'', ''isPrototypeOf'',
      ''propertyIsEnumerable'', ''toLocaleString'', ''toString'', ''valueOf'',
      ''__defineGetter__'', ''__defineSetter__'', ''__lookupGetter__'', ''__lookupSetter__'']"

definition obj_get :: "(string \<rightharpoonup> 'v) \<Rightarrow> string \<Rightarrow> 'v js_lookup" where
  "obj_get obj key =
     (case obj key of
        Some v \<Rightarrow> Own v
      | None \<Rightarrow> if key \<in> set object_prototype_names then Inherited else Undefined)"

text \<open>Every value stored in these objects is an object, hence truthy; so is every
  property of \<open>Object.prototype\<close>.\<close>

fun truthy :: "'v js_lookup \<Rightarrow> bool" where
  "truthy Undefined = False"
| "truthy (Own v) = True"
| "truthy Inherited = True"

subsection \<open>Dependencies and dependency blocks\<close>

record 'm dependency =
  d_module :: "'m option"
  d_optional :: bool
  d_weak :: bool

text \<open>A \<open>DependenciesBlock\<close>: the dependencies of its variables, its own dependencies,
  its nested blocks, and (for a nested block) the chunks created for it, \<open>None\<close> while
  the field is still \<open>null\<close>. A module is itself such a block.\<close>

datatype ('m, 'c) block =
  Block (b_variables: "'m dependency list list")
        (b_dependencies: "'m dependency list")
        (b_blocks: "('m, 'c) block list")
        (b_chunks: "'c list option")

subsection \<open>Errors\<close>

datatype ('m, 'c) failure =
    Error string
  | TypeError string
  | ModuleNotFoundError 'm "('m, 'c) failure" "'m dependency list"
  | ChunkRenderError 'c string "('m, 'c) failure"

text \<open>An error object with the two properties this file assigns on it.\<close>

record ('m, 'c) report =
  e_failure :: "('m, 'c) failure"
  e_origin :: "'m option"
  e_dependencies :: "'m dependency list option"

definition new_error :: "('m, 'c) failure \<Rightarrow> ('m, 'c) report" where
  "new_error f = \<lparr>e_failure = f, e_origin = None, e_dependencies = None\<rparr>"

subsection \<open>Module and chunk objects\<close>

datatype js_id = IdUndefined | IdNull | IdNum nat | IdStr string

record ('m, 'c) module_obj =
  m_id :: js_id
  m_lastId :: js_id
  m_error :: bool
  m_cacheable :: bool
  m_building :: "nat option"
  m_errors :: "('m, 'c) report list"
  m_warnings :: "('m, 'c) report list"
  m_block :: "('m, 'c) block"
  m_chunks :: "'c list"
  m_reasons :: "('m \<times> 'm dependency) list"

datatype source = Source string | CachedSource string

record ('m, 'c) chunk_obj =
  c_id :: js_id
  c_debugId :: nat
  c_hash :: "string option"
  c_renderedHash :: "string option"
  c_files :: "string list"
  c_filenameTemplate :: "string option"
  c_modules :: "'m list"
  c_chunks :: "'c list"
  c_parents :: "'c list"

subsection \<open>The compilation\<close>

datatype ('m, 'c) cache_entry =
    CachedModule 'm
  | CachedChunk "string option" source

record ('m, 'c) compilation =
  entries :: "'m list"
  preparedChunks :: "(string \<times> 'm option) list"
  chunks :: "'c list"
  namedChunks :: "string \<rightharpoonup> 'c"
  modules :: "'m list"
  modules_by_identifier :: "string \<rightharpoonup> 'm"
  cache :: "(string \<rightharpoonup> ('m, 'c) cache_entry) option"
  fileTimestamps :: "(string \<rightharpoonup> nat) option"
  contextTimestamps :: "(string \<rightharpoonup> nat) option"
  additionalChunkAssets :: "string list"
  assets :: "string \<rightharpoonup> source"
  errors :: "('m, 'c) report list"
  warnings :: "('m, 'c) report list"
  fullHash :: "string option"
  hash :: "string option"
  children :: "string list"
  module_heap :: "'m \<Rightarrow> ('m, 'c) module_obj"
  chunk_heap :: "'c \<Rightarrow> ('m, 'c) chunk_obj"

text \<open>The field \<open>modules_by_identifier\<close> is \<open>this._modules\<close>; of each child compilation
  in \<open>this.children\<close> the model keeps the one field read here, its \<open>hash\<close>.\<close>

text \<open>The constructor (lines 48--83), over given heaps of module and chunk objects.\<close>

definition new_compilation ::
  "('m \<Rightarrow> ('m, 'c) module_obj) \<Rightarrow> ('c \<Rightarrow> ('m, 'c) chunk_obj) \<Rightarrow> ('m, 'c) compilation" where
  "new_compilation mh ch =
     \<lparr>entries = [], preparedChunks = [], chunks = [], namedChunks = Map.empty,
      modules = [], modules_by_identifier = Map.empty, cache = None,
      fileTimestamps = None, contextTimestamps = None,
      additionalChunkAssets = [], assets = Map.empty, errors = [], warnings = [],
      fullHash = None, hash = None, children = [], module_heap = mh, chunk_heap = ch\<rparr>"

text \<open>A module and a chunk as their constructors leave them, for concrete inputs. The
  field \<open>building\<close> of a module is \<open>undefined\<close> or an array of callbacks; the array is
  shared with a closure, so the field holds a reference to it.\<close>

definition demo_module :: "('m, 'c) module_obj" where
  "demo_module =
     \<lparr>m_id = IdNull, m_lastId = IdNull, m_error = False, m_cacheable = True,
      m_building = None, m_errors = [], m_warnings = [], m_block = Block [] [] [] None,
      m_chunks = [], m_reasons = []\<rparr>"

definition demo_chunk :: "('m, 'c) chunk_obj" where
  "demo_chunk =
     \<lparr>c_id = IdNull, c_debugId = 1000, c_hash = None, c_renderedHash = None, c_files = [],
      c_filenameTemplate = None, c_modules = [], c_chunks = [], c_parents = []\<rparr>"

section \<open>Resolution failures in \<open>addModuleDependencies\<close>\<close>

text \<open>
  \<open>addModuleDependencies\<close> (lines 198--355) hands every batch of dependencies to its
  factory through \<open>async.forEach\<close> and returns; the factories answer later, in any order.
  The closures of the iterator read the compilation through the variable \<open>_this\<close>
  (line 199), which the final callback of \<open>async.forEach\<close> sets to \<open>null\<close> (line 347).
\<close>

datatype this_binding = ThisNull | ThisCompilation

text \<open>What a closure of the iterator does last: it throws, or it has passed an error or
  nothing to the \<open>callback\<close> of the iterator (at once or through \<open>process.nextTick\<close>).\<close>

datatype ('m, 'c) completion =
    Threw "('m, 'c) failure"
  | Called "('m, 'c) report option"

datatype ('m, 'c) factory_result =
    FactoryError "('m, 'c) failure"
  | FactoryNothing
  | FactoryModule 'm

definition isOptional :: "'m dependency list \<Rightarrow> bool" where
  "isOptional dependencies = (length (filter (\<lambda>d. \<not> d_optional d) dependencies) = 0)"

text \<open>Lines 213--226. The assignment to \<open>err.origin\<close> comes first; reading a property of
  \<open>null\<close> throws before anything is pushed.\<close>

definition errorAndCallback ::
  "this_binding \<Rightarrow> ('m, 'c) compilation \<Rightarrow> 'm \<Rightarrow> bool \<Rightarrow> ('m, 'c) report
   \<Rightarrow> ('m, 'c) compilation \<times> ('m, 'c) completion" where
  "errorAndCallback this s module bail err =
     (let err' = err\<lparr>e_origin := Some module\<rparr> in
      case this of
        ThisNull \<Rightarrow> (s, Threw (TypeError ''Cannot read property 'errors' of null''))
      | ThisCompilation \<Rightarrow>
          (s\<lparr>errors := errors s @ [err']\<rparr>, Called (if bail then Some err' else None)))"

definition warningAndCallback ::
  "this_binding \<Rightarrow> ('m, 'c) compilation \<Rightarrow> 'm \<Rightarrow> ('m, 'c) report
   \<Rightarrow> ('m, 'c) compilation \<times> ('m, 'c) completion" where
  "warningAndCallback this s module err =
     (let err' = err\<lparr>e_origin := Some module\<rparr> in
      case this of
        ThisNull \<Rightarrow> (s, Threw (TypeError ''Cannot read property 'warnings' of null''))
      | ThisCompilation \<Rightarrow> (s\<lparr>warnings := warnings s @ [err']\<rparr>, Called None))"

definition errorOrWarningAndCallback ::
  "this_binding \<Rightarrow> ('m, 'c) compilation \<Rightarrow> 'm \<Rightarrow> bool \<Rightarrow> 'm dependency list
   \<Rightarrow> ('m, 'c) report \<Rightarrow> ('m, 'c) compilation \<times> ('m, 'c) completion" where
  "errorOrWarningAndCallback this s module bail dependencies err =
     (if isOptional dependencies then warningAndCallback this s module err
      else errorAndCallback this s module bail err)"

text \<open>
  The callback given to \<open>factory.create\<close> (lines 235--341) for the batch \<open>dependencies\<close> of
  the module \<open>module\<close>. The factory answers with an error, with no module, or with a
  module; what happens with a module (lines 264--339, which read \<open>_this\<close> too) is the
  continuation \<open>withModule\<close>.
\<close>

definition factoryCallback ::
  "(this_binding \<Rightarrow> ('m, 'c) compilation \<Rightarrow> 'm \<Rightarrow> ('m, 'c) compilation \<times> ('m, 'c) completion)
   \<Rightarrow> this_binding \<Rightarrow> ('m, 'c) compilation \<Rightarrow> 'm \<Rightarrow> bool \<Rightarrow> 'm dependency list
   \<Rightarrow> ('m, 'c) factory_result \<Rightarrow> ('m, 'c) compilation \<times> ('m, 'c) completion" where
  "factoryCallback withModule this s module bail dependencies r =
     (case r of
        FactoryError err \<Rightarrow>
          errorOrWarningAndCallback this s module bail dependencies
            (new_error (ModuleNotFoundError module err dependencies))
      | FactoryNothing \<Rightarrow> (s, Called None)
      | FactoryModule dependentModule \<Rightarrow> withModule this s dependentModule)"

text \<open>
  The variables of one call of \<open>addModuleDependencies\<close> whose factories have all been
  found (lines 203--209): \<open>_this\<close>, and the bookkeeping of \<open>async.forEach\<close>, a function of
  the package \<open>async\<close>. It starts the iterator on every item at once, counts the items
  whose \<open>callback\<close> was called without an error, and calls its final callback once: with
  the first error an item passes, or with nothing when the count reaches the number of
  items. \<open>fe_result\<close> is what the final callback (lines 342--354) passes to the \<open>callback\<close>
  of \<open>addModuleDependencies\<close>, once it has run.
\<close>

record ('m, 'c) forEach_state =
  fe_this :: this_binding
  fe_completed :: nat
  fe_finished :: bool
  fe_result :: "('m, 'c) report option option"

definition forEach_start :: "('m, 'c) forEach_state" where
  "forEach_start =
     \<lparr>fe_this = ThisCompilation, fe_completed = 0, fe_finished = False, fe_result = None\<rparr>"

definition finalCallbackAddModuleDependencies ::
  "('m, 'c) report option \<Rightarrow> ('m, 'c) forEach_state \<Rightarrow> ('m, 'c) forEach_state" where
  "finalCallbackAddModuleDependencies err st = st\<lparr>fe_this := ThisNull, fe_result := Some err\<rparr>"

definition iterator_callback ::
  "nat \<Rightarrow> ('m, 'c) report option \<Rightarrow> ('m, 'c) forEach_state \<Rightarrow> ('m, 'c) forEach_state" where
  "iterator_callback n arg st =
     (case arg of
        Some err \<Rightarrow>
          if fe_finished st then st
          else finalCallbackAddModuleDependencies (Some err) (st\<lparr>fe_finished := True\<rparr>)
      | None \<Rightarrow>
          let st' = st\<lparr>fe_completed := Suc (fe_completed st)\<rparr> in
          if fe_completed st' = n \<and> \<not> fe_finished st'
          then finalCallbackAddModuleDependencies None (st'\<lparr>fe_finished := True\<rparr>)
          else st')"

text \<open>The factory of one batch answers, \<open>n\<close> batches having been handed out. An exception
  leaves \<open>factoryCallback\<close> and is the second component of the result.\<close>

definition factory_answers ::
  "(this_binding \<Rightarrow> ('m, 'c) compilation \<Rightarrow> 'm \<Rightarrow> ('m, 'c) compilation \<times> ('m, 'c) completion)
   \<Rightarrow> 'm \<Rightarrow> bool \<Rightarrow> nat \<Rightarrow> 'm dependency list \<Rightarrow> ('m, 'c) factory_result
   \<Rightarrow> ('m, 'c) compilation \<times> ('m, 'c) forEach_state
   \<Rightarrow> (('m, 'c) compilation \<times> ('m, 'c) forEach_state) \<times> ('m, 'c) failure option" where
  "factory_answers withModule module bail n dependencies r x =
     (case factoryCallback withModule (fe_this (snd x)) (fst x) module bail dependencies r of
        (s', Threw e) \<Rightarrow> ((s', snd x), Some e)
      | (s', Called arg) \<Rightarrow> ((s', iterator_callback n arg (snd x)), None))"

text \<open>While \<open>_this\<close> is the compilation, a failure of the factory is appended to the
  warnings if every dependency of the batch is optional and to the errors otherwise.\<close>

lemma factoryCallback_classifies_while_bound:
  "fst (factoryCallback withModule ThisCompilation s module bail dependencies (FactoryError err)) =
     (if \<forall>d \<in> set dependencies. d_optional d
      then s\<lparr>warnings := warnings s @
             [(new_error (ModuleNotFoundError module err dependencies))\<lparr>e_origin := Some module\<rparr>]\<rparr>
      else s\<lparr>errors := errors s @
             [(new_error (ModuleNotFoundError module err dependencies))\<lparr>e_origin := Some module\<rparr>]\<rparr>)"
proof -
  have "isOptional dependencies \<longleftrightarrow> (\<forall>d \<in> set dependencies. d_optional d)"
    by (auto simp: isOptional_def filter_empty_conv)
  then show ?thesis
    by (simp add: factoryCallback_def errorOrWarningAndCallback_def warningAndCallback_def
        errorAndCallback_def Let_def)
qed

text \<open>Three dependencies that no factory resolves, and a compilation in bail mode with no
  errors yet.\<close>

definition required_a :: "nat dependency" where
  "required_a = \<lparr>d_module = None, d_optional = False, d_weak = False\<rparr>"

definition required_b :: "nat dependency" where
  "required_b = \<lparr>d_module = None, d_optional = False, d_weak = False\<rparr>"

definition optional_c :: "nat dependency" where
  "optional_c = \<lparr>d_module = None, d_optional = True, d_weak = False\<rparr>"

definition empty_compilation :: "(nat, nat) compilation" where
  "empty_compilation = new_compilation (\<lambda>m. demo_module) (\<lambda>c. demo_chunk)"

definition after_first_failure :: "(nat, nat) compilation \<times> (nat, nat) forEach_state" where
  "after_first_failure =
     fst (factory_answers (\<lambda>this s m. (s, Called None)) 0 True 3 [required_a]
            (FactoryError (Error ''not found'')) (empty_compilation, forEach_start))"

text \<open>
  C5. Module 0 has three batches of dependencies, \<open>[required_a]\<close>, \<open>[required_b]\<close> and
  \<open>[optional_c]\<close>, and the compilation is in bail mode. The factory fails for the first
  batch: the \<open>ModuleNotFoundError\<close> is appended to the errors and passed to the callback,
  so \<open>async.forEach\<close> calls its final callback, which sets \<open>_this\<close> to \<open>null\<close>. Whichever
  factory fails next, that of the second batch, which has a dependency that is not
  optional, or that of the third, all of whose dependencies are optional:
  \<open>factoryCallback\<close> throws a \<open>TypeError\<close>, and the \<open>ModuleNotFoundError\<close> is appended
  neither to the errors nor to the warnings, which stay as the first failure left them.
\<close>

theorem late_resolution_failure_is_not_recorded:
  "errors (fst after_first_failure) =
     [\<lparr>e_failure = ModuleNotFoundError 0 (Error ''not found'') [required_a],
       e_origin = Some 0, e_dependencies = None\<rparr>]
   \<and> warnings (fst after_first_failure) = []
   \<and> fe_this (snd after_first_failure) = ThisNull
   \<and> factory_answers (\<lambda>this s m. (s, Called None)) 0 True 3 [required_b]
        (FactoryError (Error ''not found'')) after_first_failure
      = (after_first_failure, Some (TypeError ''Cannot read property 'errors' of null''))
   \<and> factory_answers (\<lambda>this s m. (s, Called None)) 0 True 3 [optional_c]
        (FactoryError (Error ''not found'')) after_first_failure
      = (after_first_failure, Some (TypeError ''Cannot read property 'warnings' of null''))"
  by (simp add: after_first_failure_def factory_answers_def factoryCallback_def
      errorOrWarningAndCallback_def errorAndCallback_def warningAndCallback_def isOptional_def
      iterator_callback_def finalCallbackAddModuleDependencies_def forEach_start_def
      empty_compilation_def new_compilation_def new_error_def required_a_def required_b_def
      optional_c_def Let_def)

section \<open>The module registry: \<open>addModule\<close>, \<open>getModule\<close>, \<open>findModule\<close>\<close>

text \<open>
  The methods of the \<open>Module\<close> class that this file calls and that are defined elsewhere:
  \<open>identifier()\<close> is a string fixed for each module object; the others read or change
  the fields of the one object they are called on.
\<close>

record ('m, 'c) module_class =
  module_identifier :: "'m \<Rightarrow> string"
  needRebuild :: "('m, 'c) module_obj \<Rightarrow> (string \<rightharpoonup> nat) \<Rightarrow> (string \<rightharpoonup> nat) \<Rightarrow> bool"
  unbuild :: "('m, 'c) module_obj \<Rightarrow> ('m, 'c) module_obj"
  disconnect :: "('m, 'c) module_obj \<Rightarrow> ('m, 'c) module_obj"
  unseal_module :: "('m, 'c) module_obj \<Rightarrow> ('m, 'c) module_obj"

datatype 'm addModule_result = ReturnFalse | ReturnTrue | ReturnModule 'm

text \<open>\<open>(cacheGroup || "m") + identifier\<close>: an absent or empty cache group is falsy.\<close>

definition cacheName_of :: "string option \<Rightarrow> string \<Rightarrow> string" where
  "cacheName_of cacheGroup ident =
     (case cacheGroup of
        None \<Rightarrow> ''m''
      | Some g \<Rightarrow> if g = [] then ''m'' else g) @ ident"

text \<open>\<open>this.cache && this.cache[cacheName]\<close>; the cache is a plain object as well.\<close>

definition cache_get ::
  "('m, 'c) compilation \<Rightarrow> string \<Rightarrow> ('m, 'c) cache_entry js_lookup" where
  "cache_get s cacheName =
     (case cache s of None \<Rightarrow> Undefined | Some c \<Rightarrow> obj_get c cacheName)"

text \<open>Lines 115--121: the candidate becomes the registered module.\<close>

definition register_candidate ::
  "('m, 'c) module_class \<Rightarrow> ('m, 'c) compilation \<Rightarrow> 'm \<Rightarrow> string \<Rightarrow> string
   \<Rightarrow> 'm addModule_result \<times> ('m, 'c) compilation" where
  "register_candidate cls s module ident cacheName =
     (ReturnTrue,
      s\<lparr>module_heap := (module_heap s)(module := unbuild cls (module_heap s module)),
        modules_by_identifier := (modules_by_identifier s)(ident \<mapsto> module),
        cache := map_option (\<lambda>c. c(cacheName \<mapsto> CachedModule module)) (cache s),
        modules := modules s @ [module]\<rparr>)"

definition set_lastId :: "('m, 'c) compilation \<Rightarrow> 'm \<Rightarrow> js_id \<Rightarrow> ('m, 'c) compilation" where
  "set_lastId s module v =
     s\<lparr>module_heap := (module_heap s)(module := (module_heap s module)\<lparr>m_lastId := v\<rparr>)\<rparr>"

definition addModule ::
  "('m, 'c) module_class \<Rightarrow> ('m, 'c) compilation \<Rightarrow> 'm \<Rightarrow> string option
   \<Rightarrow> 'm addModule_result \<times> ('m, 'c) compilation" where
  "addModule cls s module cacheGroup =
     (let ident = module_identifier cls module in
      if truthy (obj_get (modules_by_identifier s) ident) then (ReturnFalse, s)
      else
        let cacheName = cacheName_of cacheGroup ident in
        case cache_get s cacheName of
          Undefined \<Rightarrow> register_candidate cls s module ident cacheName
        | Own (CachedModule cacheModule) \<Rightarrow>
            let cm = module_heap s cacheModule;
                rebuild =
                  (case (fileTimestamps s, contextTimestamps s) of
                     (Some fts, Some cts) \<Rightarrow>
                       if \<not> m_error cm \<and> m_cacheable cm then needRebuild cls cm fts cts else True
                   | _ \<Rightarrow> True)
            in if \<not> rebuild then
                 let cm' = disconnect cls cm in
                 (ReturnModule cacheModule,
                  s\<lparr>module_heap := (module_heap s)(cacheModule := cm'),
                    modules_by_identifier := (modules_by_identifier s)(ident \<mapsto> cacheModule),
                    modules := modules s @ [cacheModule],
                    errors := errors s @ m_errors cm',
                    warnings := warnings s @ m_warnings cm'\<rparr>)
               else register_candidate cls (set_lastId s module (m_id cm)) module ident cacheName
        | _ \<Rightarrow>
            \<comment> \<open>an entry that is no module has no \<open>error\<close>, \<open>cacheable\<close> or \<open>id\<close>\<close>
            register_candidate cls (set_lastId s module IdUndefined) module ident cacheName)"

definition getModule ::
  "('m, 'c) module_class \<Rightarrow> ('m, 'c) compilation \<Rightarrow> 'm \<Rightarrow> 'm js_lookup" where
  "getModule cls s module = obj_get (modules_by_identifier s) (module_identifier cls module)"

definition findModule :: "('m, 'c) compilation \<Rightarrow> string \<Rightarrow> 'm js_lookup" where
  "findModule s ident = obj_get (modules_by_identifier s) ident"

text \<open>A run of further \<open>addModule\<close> calls, each with its own candidate and cache group.\<close>

definition addModules ::
  "('m, 'c) module_class \<Rightarrow> ('m \<times> string option) list \<Rightarrow> ('m, 'c) compilation
   \<Rightarrow> ('m, 'c) compilation" where
  "addModules cls calls s = fold (\<lambda>(m, g) s. snd (addModule cls s m g)) calls s"

lemma addModule_registered:
  "truthy (obj_get (modules_by_identifier s) (module_identifier cls m))
   \<Longrightarrow> addModule cls s m g = (ReturnFalse, s)"
  by (simp add: addModule_def)

lemma addModule_fresh:
  assumes "\<not> truthy (obj_get (modules_by_identifier s) (module_identifier cls m))"
  shows "\<exists>x. modules_by_identifier (snd (addModule cls s m g)) =
               (modules_by_identifier s)(module_identifier cls m \<mapsto> x)
             \<and> (fst (addModule cls s m g) = ReturnTrue \<longrightarrow> x = m)"
  using assms
  by (simp add: addModule_def Let_def register_candidate_def set_lastId_def
      split: js_lookup.splits cache_entry.splits option.splits prod.splits) blast

lemma addModule_keeps_registered:
  assumes "obj_get (modules_by_identifier s) k = Own a"
  shows "obj_get (modules_by_identifier (snd (addModule cls s m g))) k = Own a"
proof (cases "truthy (obj_get (modules_by_identifier s) (module_identifier cls m))")
  case True
  then show ?thesis using assms by (simp add: addModule_registered)
next
  case False
  with assms have ne: "k \<noteq> module_identifier cls m" by auto
  from addModule_fresh [OF False, of g] obtain x
    where "modules_by_identifier (snd (addModule cls s m g)) =
             (modules_by_identifier s)(module_identifier cls m \<mapsto> x)"
    by blast
  then show ?thesis using assms ne by (simp add: obj_get_def)
qed

lemma addModules_keeps_registered:
  "obj_get (modules_by_identifier s) k = Own a
   \<Longrightarrow> obj_get (modules_by_identifier (addModules cls calls s)) k = Own a"
  unfolding addModules_def
  by (induction calls arbitrary: s) (auto simp: addModule_keeps_registered)

lemma addModule_true_registers:
  assumes "addModule cls s a g = (ReturnTrue, s1)"
  shows "obj_get (modules_by_identifier s1) (module_identifier cls a) = Own a"
proof -
  have r: "fst (addModule cls s a g) = ReturnTrue" and s1: "s1 = snd (addModule cls s a g)"
    using assms by simp_all
  have "\<not> truthy (obj_get (modules_by_identifier s) (module_identifier cls a))"
    using r addModule_registered [of s cls a g] by auto
  from addModule_fresh [OF this, of g] r
  have "modules_by_identifier s1 = (modules_by_identifier s)(module_identifier cls a \<mapsto> a)"
    unfolding s1 by auto
  then show ?thesis by (simp add: obj_get_def)
qed

text \<open>
  C1. Let modules \<open>A\<close> and \<open>B\<close> have equal identifiers and let \<open>addModule(A)\<close> have returned
  \<open>true\<close>. Then, after any further \<open>addModule\<close> calls, \<open>addModule(B)\<close> returns \<open>false\<close>
  and leaves the compilation as it was, and \<open>getModule(B)\<close> and \<open>findModule\<close> on the
  identifier return the instance \<open>A\<close>.
\<close>

theorem addModule_same_identifier:
  assumes "module_identifier cls A = module_identifier cls B"
    and "addModule cls s A g = (ReturnTrue, s1)"
    and "s2 = addModules cls calls s1"
  shows "addModule cls s2 B g' = (ReturnFalse, s2)
       \<and> getModule cls (snd (addModule cls s2 B g')) B = Own A
       \<and> findModule (snd (addModule cls s2 B g')) (module_identifier cls B) = Own A"
proof -
  have "obj_get (modules_by_identifier s1) (module_identifier cls B) = Own A"
    using addModule_true_registers [OF assms(2)] assms(1) by simp
  then have reg: "obj_get (modules_by_identifier s2) (module_identifier cls B) = Own A"
    unfolding assms(3) by (rule addModules_keeps_registered)
  then have "addModule cls s2 B g' = (ReturnFalse, s2)"
    by (simp add: addModule_def)
  then show ?thesis using reg by (simp add: getModule_def findModule_def)
qed

definition demo_class :: "(nat, nat) module_class" where
  "demo_class =
     \<lparr>module_identifier = (\<lambda>m. if m = 2 then ''./b.js'' else ''./a.js''),
      needRebuild = (\<lambda>mo fts cts. False),
      unbuild = (\<lambda>mo. mo\<lparr>m_errors := [], m_warnings := []\<rparr>),
      disconnect = (\<lambda>mo. mo\<lparr>m_chunks := [], m_reasons := []\<rparr>),
      unseal_module = (\<lambda>mo. mo\<lparr>m_lastId := m_id mo, m_id := IdNull, m_chunks := []\<rparr>)\<rparr>"

definition demo_compilation :: "(nat, nat) compilation" where
  "demo_compilation = new_compilation (\<lambda>m. demo_module) (\<lambda>c. demo_chunk)"

theorem addModule_same_identifier_witness:
  "fst (addModule demo_class demo_compilation 0 None) = ReturnTrue
   \<and> fst (addModule demo_class
        (addModules demo_class [(2, None)] (snd (addModule demo_class demo_compilation 0 None)))
        1 None) = ReturnFalse
   \<and> getModule demo_class
        (snd (addModule demo_class
           (addModules demo_class [(2, None)] (snd (addModule demo_class demo_compilation 0 None)))
           1 None))
        1 = Own 0"
proof -
  have ids: "module_identifier demo_class 0 = module_identifier demo_class 1"
    by (simp add: demo_class_def)
  have first: "fst (addModule demo_class demo_compilation 0 None) = ReturnTrue"
    by (simp add: addModule_def demo_compilation_def new_compilation_def obj_get_def
        cache_get_def object_prototype_names_def demo_class_def Let_def register_candidate_def)
  then have run: "addModule demo_class demo_compilation 0 None =
      (ReturnTrue, snd (addModule demo_class demo_compilation 0 None))"
    by (simp add: prod_eq_iff)
  from addModule_same_identifier [OF ids run refl, of "[(2, None)]" None] first
  show ?thesis by auto
qed

section \<open>\<open>unseal\<close>\<close>

text \<open>
  Lines 530--537. \<open>applyPlugins0("unseal")\<close> runs the handlers registered for the hook;
  they are code outside this file and are the state transformer \<open>unseal_plugins\<close> (the
  identity when no handler is registered). Setting \<open>length = 0\<close> empties an array.
\<close>

fun unseal_modules ::
  "('m, 'c) module_class \<Rightarrow> 'm list \<Rightarrow> ('m \<Rightarrow> ('m, 'c) module_obj) \<Rightarrow> ('m \<Rightarrow> ('m, 'c) module_obj)" where
  "unseal_modules cls [] h = h"
| "unseal_modules cls (module # rest) h =
     unseal_modules cls rest (h(module := unseal_module cls (h module)))"

definition unseal ::
  "('m, 'c) module_class \<Rightarrow> (('m, 'c) compilation \<Rightarrow> ('m, 'c) compilation)
   \<Rightarrow> ('m, 'c) compilation \<Rightarrow> ('m, 'c) compilation" where
  "unseal cls unseal_plugins s =
     (let s1 = unseal_plugins s;
          s2 = s1\<lparr>chunks := []\<rparr>;
          s3 = s2\<lparr>namedChunks := Map.empty\<rparr>;
          s4 = s3\<lparr>additionalChunkAssets := []\<rparr>;
          s5 = s4\<lparr>assets := Map.empty\<rparr>
      in s5\<lparr>module_heap := unseal_modules cls (modules s5) (module_heap s5)\<rparr>)"

lemma unseal_modules_heap:
  "unseal_modules cls ms h m = (unseal_module cls ^^ count_list ms m) (h m)"
proof (induction ms arbitrary: h)
  case Nil
  show ?case by simp
next
  case (Cons x xs)
  show ?case
    by (simp add: Cons.IH funpow_swap1)
qed

text \<open>
  C10. After \<open>unseal\<close> the arrays \<open>chunks\<close> and \<open>additionalChunkAssets\<close> are empty and
  \<open>namedChunks\<close> and \<open>assets\<close> are empty maps. The fields \<open>modules\<close>, \<open>_modules\<close>,
  \<open>errors\<close>, \<open>warnings\<close>, \<open>entries\<close> and \<open>preparedChunks\<close> are as they were when the
  handlers of the hook returned: \<open>unseal\<close> itself writes none of them. Each module object
  has had its own \<open>unseal()\<close> applied once for each of its occurrences in \<open>modules\<close>, and
  no other module object is touched.
\<close>

theorem unseal_frame:
  "chunks (unseal cls unseal_plugins s) = []
   \<and> additionalChunkAssets (unseal cls unseal_plugins s) = []
   \<and> namedChunks (unseal cls unseal_plugins s) = Map.empty
   \<and> assets (unseal cls unseal_plugins s) = Map.empty
   \<and> modules (unseal cls unseal_plugins s) = modules (unseal_plugins s)
   \<and> modules_by_identifier (unseal cls unseal_plugins s) = modules_by_identifier (unseal_plugins s)
   \<and> errors (unseal cls unseal_plugins s) = errors (unseal_plugins s)
   \<and> warnings (unseal cls unseal_plugins s) = warnings (unseal_plugins s)
   \<and> entries (unseal cls unseal_plugins s) = entries (unseal_plugins s)
   \<and> preparedChunks (unseal cls unseal_plugins s) = preparedChunks (unseal_plugins s)
   \<and> module_heap (unseal cls unseal_plugins s) m =
       (unseal_module cls ^^ count_list (modules (unseal_plugins s)) m)
         (module_heap (unseal_plugins s) m)"
  by (simp add: unseal_def Let_def unseal_modules_heap)

section \<open>\<open>checkConstraints\<close>\<close>

text \<open>Property keys: an id used as a key is converted to a string.\<close>

definition digit_char :: "nat \<Rightarrow> char" where
  "digit_char d = char_of (48 + d)"

function string_of_nat :: "nat \<Rightarrow> string" where
  "string_of_nat n =
     (if n < 10 then [digit_char n] else string_of_nat (n div 10) @ [digit_char (n mod 10)])"
  by pat_completeness auto
termination
  by (relation "measure id") auto

fun key_of_id :: "js_id \<Rightarrow> string" where
  "key_of_id IdUndefined = ''undefined''"
| "key_of_id IdNull = ''null''"
| "key_of_id (IdNum n) = string_of_nat n"
| "key_of_id (IdStr s) = s"

text \<open>\<open>Array.prototype.indexOf\<close>: the first position of the element, \<open>None\<close> for \<open>-1\<close>.\<close>

fun indexOf :: "'a list \<Rightarrow> 'a \<Rightarrow> nat option" where
  "indexOf [] x = None"
| "indexOf (y # ys) x = (if y = x then Some 0 else map_option Suc (indexOf ys x))"

text \<open>
  The first loop (lines 1229--1235). The object \<open>usedIds\<close> is read for every module id;
  no statement of the loop writes it.
\<close>

fun check_module_ids ::
  "(string \<rightharpoonup> bool) \<Rightarrow> js_id list \<Rightarrow> ('m, 'c) failure + unit" where
  "check_module_ids usedIds [] = Inr ()"
| "check_module_ids usedIds (moduleId # rest) =
     (if truthy (obj_get usedIds (key_of_id moduleId))
      then Inl (Error (''checkConstraints: duplicate module id '' @ key_of_id moduleId))
      else check_module_ids usedIds rest)"

text \<open>
  The second loop (lines 1237--1244), over the indices of \<open>this.chunks\<close>.
  \<open>chunk.checkConstraints()\<close> is defined elsewhere and may throw: \<open>chunk_check\<close>.
\<close>

fun check_chunks ::
  "('c \<Rightarrow> ('m, 'c) failure option) \<Rightarrow> ('c \<Rightarrow> ('m, 'c) chunk_obj) \<Rightarrow> 'c list \<Rightarrow> nat list
   \<Rightarrow> ('m, 'c) failure + unit" where
  "check_chunks chunk_check ch cs [] = Inr ()"
| "check_chunks chunk_check ch cs (indexChunk # rest) =
     (let chunk = cs ! indexChunk in
      if indexOf cs chunk \<noteq> Some indexChunk
      then Inl (Error (''checkConstraints: duplicate chunk in compilation ''
                       @ string_of_nat (c_debugId (ch chunk))))
      else case chunk_check chunk of
             Some e \<Rightarrow> Inl e
           | None \<Rightarrow> check_chunks chunk_check ch cs rest)"

definition checkConstraints ::
  "('c \<Rightarrow> ('m, 'c) failure option) \<Rightarrow> ('m, 'c) compilation \<Rightarrow> ('m, 'c) failure + unit" where
  "checkConstraints chunk_check s =
     (case check_module_ids Map.empty (map (\<lambda>m. m_id (module_heap s m)) (modules s)) of
        Inl e \<Rightarrow> Inl e
      | Inr u \<Rightarrow> check_chunks chunk_check (chunk_heap s) (chunks s) [0 ..< length (chunks s)])"

lemma check_module_ids_empty:
  "check_module_ids Map.empty ids = (Inr () :: ('m, 'c) failure + unit)
   \<longleftrightarrow> (\<forall>i \<in> set ids. key_of_id i \<notin> set object_prototype_names)"
  by (induction ids) (auto simp: obj_get_def)

text \<open>
  C4, where the code departs from the claim. Two distinct modules with the same id 7 and
  no chunk: \<open>checkConstraints\<close> returns normally.
\<close>

theorem checkConstraints_duplicate_module_id_passes:
  "checkConstraints (\<lambda>c. None)
     (demo_compilation\<lparr>modules := [0, 1],
                       module_heap := (\<lambda>m. demo_module\<lparr>m_id := IdNum 7\<rparr>)\<rparr>)
   = Inr ()"
  by (simp add: checkConstraints_def demo_compilation_def new_compilation_def obj_get_def
      object_prototype_names_def digit_char_def)

section \<open>Removing a chunk from dependencies: \<open>rebuildModule\<close>, \<open>removeChunkFromDependencies\<close>\<close>

subsection \<open>Methods of \<open>Module\<close> and \<open>Chunk\<close> defined elsewhere\<close>

text \<open>
  Modelled from the spec: \<open>Module.removeReason\<close> (not among the source files). A module
  holds a multiset of reasons, pairs of a requesting module and a dependency; removing
  one takes out one occurrence and tells whether there was one.
\<close>

definition module_removeReason ::
  "('m, 'c) compilation \<Rightarrow> 'm \<Rightarrow> 'm \<Rightarrow> 'm dependency \<Rightarrow> bool \<times> ('m, 'c) compilation" where
  "module_removeReason s m requester d =
     (if (requester, d) \<in> set (m_reasons (module_heap s m))
      then (True, s\<lparr>module_heap := (module_heap s)
              (m := (module_heap s m)\<lparr>m_reasons := remove1 (requester, d) (m_reasons (module_heap s m))\<rparr>)\<rparr>)
      else (False, s))"

text \<open>
  Modelled from the spec: \<open>Module.hasReasonForChunk\<close> (not among the source files). A
  reason justifies the module's presence in a chunk when its requesting module is a
  member of that chunk.
\<close>

definition module_hasReasonForChunk :: "('m, 'c) compilation \<Rightarrow> 'm \<Rightarrow> 'c \<Rightarrow> bool" where
  "module_hasReasonForChunk s m chunk =
     list_ex (\<lambda>r. chunk \<in> set (m_chunks (module_heap s (fst r)))) (m_reasons (module_heap s m))"

text \<open>
  Modelled from the spec: \<open>Module.removeChunk\<close> (not among the source files). It ends the
  membership of the module in the chunk, on both sides, and tells whether the module was
  a member.
\<close>

definition module_removeChunk ::
  "('m, 'c) compilation \<Rightarrow> 'm \<Rightarrow> 'c \<Rightarrow> bool \<times> ('m, 'c) compilation" where
  "module_removeChunk s m chunk =
     (if chunk \<in> set (m_chunks (module_heap s m))
      then (True,
            s\<lparr>module_heap := (module_heap s)
                 (m := (module_heap s m)\<lparr>m_chunks := removeAll chunk (m_chunks (module_heap s m))\<rparr>),
              chunk_heap := (chunk_heap s)
                 (chunk := (chunk_heap s chunk)\<lparr>c_modules := removeAll m (c_modules (chunk_heap s chunk))\<rparr>)\<rparr>)
      else (False, s))"

text \<open>
  Modelled from the spec: \<open>Chunk.removeChunk\<close> and \<open>Chunk.removeParent\<close> (not among the
  source files): they take a chunk out of the children, respectively the parents, of
  another.
\<close>

definition chunk_removeChunk :: "('m, 'c) compilation \<Rightarrow> 'c \<Rightarrow> 'c \<Rightarrow> ('m, 'c) compilation" where
  "chunk_removeChunk s chunk child =
     s\<lparr>chunk_heap := (chunk_heap s)
          (chunk := (chunk_heap s chunk)\<lparr>c_chunks := removeAll child (c_chunks (chunk_heap s chunk))\<rparr>)\<rparr>"

definition chunk_removeParent :: "('m, 'c) compilation \<Rightarrow> 'c \<Rightarrow> 'c \<Rightarrow> ('m, 'c) compilation" where
  "chunk_removeParent s chunk parent =
     s\<lparr>chunk_heap := (chunk_heap s)
          (chunk := (chunk_heap s chunk)\<lparr>c_parents := removeAll parent (c_parents (chunk_heap s chunk))\<rparr>)\<rparr>"

subsection \<open>The methods of this file\<close>

text \<open>
  A step of a loop body ends normally or throws, and in both cases leaves a state; for
  lack of fuel it gives \<open>None\<close>. \<open>for_each\<close> runs a body over an array and stops at the
  first exception.
\<close>

type_synonym ('m, 'c) outcome = "(('m, 'c) failure option \<times> ('m, 'c) compilation) option"

fun for_each ::
  "('a \<Rightarrow> ('m, 'c) compilation \<Rightarrow> ('m, 'c) outcome) \<Rightarrow> 'a list \<Rightarrow> ('m, 'c) compilation
   \<Rightarrow> ('m, 'c) outcome" where
  "for_each body [] s = Some (None, s)"
| "for_each body (x # xs) s =
     (case body x s of
        None \<Rightarrow> None
      | Some (Some e, s') \<Rightarrow> Some (Some e, s')
      | Some (None, s') \<Rightarrow> for_each body xs s')"

text \<open>
  The first argument of \<open>removeChunkFromDependencies\<close> is named \<open>block\<close>; the call at line
  889 passes the array \<open>chunks\<close> for it. An array has no property \<open>blocks\<close>, so line 882
  reads \<open>undefined\<close> and line 883 throws on \<open>blocks.length\<close>. The same holds for
  \<open>chunks.length\<close> at line 885 when the field \<open>chunks\<close> of a nested block is \<open>null\<close>.
\<close>

datatype ('m, 'c) block_argument =
    BlockArg "('m, 'c) block"
  | ArrayArg "'c list"

fun removeChunkFromDependencies ::
  "nat \<Rightarrow> ('m, 'c) block_argument \<Rightarrow> 'c \<Rightarrow> ('m, 'c) compilation \<Rightarrow> ('m, 'c) outcome" where
  "removeChunkFromDependencies 0 arg chunk s = None"
| "removeChunkFromDependencies (Suc fuel) (ArrayArg cs) chunk s =
     Some (Some (TypeError ''Cannot read property 'length' of undefined''), s)"
| "removeChunkFromDependencies (Suc fuel) (BlockArg block) chunk s =
     (let iteratorDependency = (\<lambda>d s.
            case d_module d of
              None \<Rightarrow> Some (None, s)
            | Some dm \<Rightarrow>
                if \<not> module_hasReasonForChunk s dm chunk then
                  (case module_removeChunk s dm chunk of
                     (True, s') \<Rightarrow>
                       removeChunkFromDependencies fuel (BlockArg (m_block (module_heap s' dm))) chunk s'
                   | (False, s') \<Rightarrow> Some (None, s'))
                else Some (None, s));
          blocksLoop = for_each (\<lambda>b s.
            case b_chunks b of
              None \<Rightarrow> Some (Some (TypeError ''Cannot read property 'length' of null''), s)
            | Some chunks_array \<Rightarrow>
                for_each (\<lambda>blockChunk s.
                    removeChunkFromDependencies fuel (ArrayArg chunks_array) blockChunk
                      (chunk_removeParent (chunk_removeChunk s chunk blockChunk) blockChunk chunk))
                  chunks_array s)
            (b_blocks block) s
      in case blocksLoop of
           None \<Rightarrow> None
         | Some (Some e, s') \<Rightarrow> Some (Some e, s')
         | Some (None, s') \<Rightarrow>
             for_each iteratorDependency (b_dependencies block @ concat (b_variables block)) s')"

text \<open>
  The callback of \<open>rebuildModule\<close> after the module has been built again and its
  dependencies processed (lines 503--513); \<open>deps\<close> are the dependencies the module had
  before. A module is not among its own dependencies here.
\<close>

definition rebuild_cleanup ::
  "nat \<Rightarrow> 'm \<Rightarrow> 'm dependency list \<Rightarrow> ('m, 'c) compilation \<Rightarrow> ('m, 'c) outcome" where
  "rebuild_cleanup fuel module deps s =
     for_each (\<lambda>d s.
        case d_module d of
          None \<Rightarrow> Some (None, s)
        | Some dm \<Rightarrow>
            (case module_removeReason s dm module d of
               (False, s') \<Rightarrow> Some (None, s')
             | (True, s') \<Rightarrow>
                 for_each (\<lambda>chunk s.
                     if \<not> module_hasReasonForChunk s dm chunk then
                       (case module_removeChunk s dm chunk of
                          (True, s') \<Rightarrow>
                            removeChunkFromDependencies fuel (BlockArg (m_block (module_heap s' dm))) chunk s'
                        | (False, s') \<Rightarrow> Some (None, s'))
                     else Some (None, s))
                   (m_chunks (module_heap s' module)) s'))
       deps s"

text \<open>
  An entry module 0 in chunk 0 imports module 1; module 1 has a split point whose block
  has been given chunk 1, with module 2 in it; module 1 is in chunk 0 for the one reason
  that module 0 imports it.
\<close>

definition split_dependency :: "nat dependency" where
  "split_dependency = \<lparr>d_module = Some 1, d_optional = False, d_weak = False\<rparr>"

definition split_compilation :: "(nat, nat) compilation" where
  "split_compilation =
     demo_compilation
       \<lparr>chunks := [0, 1],
        modules := [0, 1, 2],
        module_heap := (\<lambda>m.
           if m = 0 then demo_module\<lparr>m_chunks := [0]\<rparr>
           else if m = 1 then
             demo_module
               \<lparr>m_chunks := [0],
                m_reasons := [(0, split_dependency)],
                m_block := Block [] []
                  [Block [] [\<lparr>d_module = Some 2, d_optional = False, d_weak = False\<rparr>] [] (Some [1])]
                  None\<rparr>
           else demo_module\<lparr>m_chunks := [1]\<rparr>),
        chunk_heap := (\<lambda>c.
           if c = 0 then demo_chunk\<lparr>c_modules := [0, 1], c_chunks := [1]\<rparr>
           else demo_chunk\<lparr>c_modules := [2], c_parents := [0]\<rparr>)\<rparr>"

text \<open>
  C3, where the code departs from the claim. Module 0 is rebuilt and no longer imports
  module 1, so the reason of its old dependency is the last one. The clean-up removes
  module 1 from chunk 0 and then throws a \<open>TypeError\<close> on the split point of module 1:
  the dependencies of module 1 and the contents of chunk 1 are never visited.
\<close>

theorem rebuild_cleanup_throws_on_split_point:
  "(case rebuild_cleanup 3 0 [split_dependency] split_compilation of
      Some (Some e, s') \<Rightarrow>
        e = TypeError ''Cannot read property 'length' of undefined''
        \<and> m_chunks (module_heap s' 1) = []
        \<and> c_chunks (chunk_heap s' 0) = []
        \<and> m_chunks (module_heap s' 2) = [1]
        \<and> c_modules (chunk_heap s' 1) = [2]
    | _ \<Rightarrow> False)"
  by (simp add: rebuild_cleanup_def split_compilation_def split_dependency_def
      demo_compilation_def new_compilation_def demo_module_def demo_chunk_def
      module_removeReason_def module_hasReasonForChunk_def module_removeChunk_def
      chunk_removeChunk_def chunk_removeParent_def numeral_3_eq_3)

section \<open>\<open>buildModule\<close>: one build in flight for each module\<close>

text \<open>
  \<open>buildModule\<close> hands a callback to \<open>module.build\<close> and returns; the callback runs when
  the build is done. The model has one function for the call and one for that callback.
  The callback is a closure over \<open>module\<close>, \<open>optional\<close>, \<open>origin\<close>, \<open>dependencies\<close> and
  the array \<open>building\<close>, which is the array the field \<open>module.building\<close> refers to: the
  arrays of callbacks live in a store, \<open>arrays\<close>, and are named by references. What
  leaves this file is recorded as a sequence of events: the hooks called, the calls of
  \<open>module.build\<close>, the calls of the callbacks that were passed in. The handlers of the
  hooks are taken not to write the fields of this protocol.
\<close>

record 'm build_closure =
  cl_module :: 'm
  cl_building :: nat
  cl_optional :: bool
  cl_origin :: "'m option"
  cl_dependencies :: "'m dependency list option"

datatype ('m, 'c, 'cb) event =
    PluginCall string 'm
  | ModuleBuild "'m build_closure"
  | CallbackCall 'cb "('m, 'c) failure option"

record ('m, 'c, 'cb) runtime =
  self :: "('m, 'c) compilation"
  arrays :: "nat \<Rightarrow> 'cb list"
  next_array :: nat
  events :: "('m, 'c, 'cb) event list"

definition building_of :: "('m, 'c, 'cb) runtime \<Rightarrow> 'm \<Rightarrow> nat option" where
  "building_of r module = m_building (module_heap (self r) module)"

definition set_building ::
  "('m, 'c) compilation \<Rightarrow> 'm \<Rightarrow> nat option \<Rightarrow> ('m, 'c) compilation" where
  "set_building s module v =
     s\<lparr>module_heap := (module_heap s)(module := (module_heap s module)\<lparr>m_building := v\<rparr>)\<rparr>"

definition buildModule ::
  "('m, 'c, 'cb) runtime \<Rightarrow> 'm \<Rightarrow> bool \<Rightarrow> 'm option \<Rightarrow> 'm dependency list option \<Rightarrow> 'cb
   \<Rightarrow> ('m, 'c, 'cb) runtime" where
  "buildModule r0 module optional origin dependencies thisCallback =
     (let r = r0\<lparr>events := events r0 @ [PluginCall ''build-module'' module]\<rparr> in
      case building_of r module of
        Some b \<Rightarrow> r\<lparr>arrays := (arrays r)(b := arrays r b @ [thisCallback])\<rparr>
      | None \<Rightarrow>
          let b = next_array r in
          r\<lparr>self := set_building (self r) module (Some b),
            arrays := (arrays r)(b := [thisCallback]),
            next_array := Suc b,
            events := events r @
              [ModuleBuild \<lparr>cl_module = module, cl_building = b, cl_optional = optional,
                           cl_origin = origin, cl_dependencies = dependencies\<rparr>]\<rparr>)"

text \<open>
  The callback given to \<open>module.build\<close> (lines 142--168), with the error the build ends
  with, if any. \<open>Dependency.compare\<close> is defined elsewhere: \<open>sort_dependencies\<close> stands for
  \<open>module.dependencies.sort(Dependency.compare)\<close>. A callback of the queue may throw,
  which ends \<open>building.forEach\<close>: \<open>throws\<close> tells which do, and \<open>called\<close> are the
  callbacks that get called.
\<close>

fun called :: "('cb \<Rightarrow> bool) \<Rightarrow> 'cb list \<Rightarrow> 'cb list" where
  "called throws [] = []"
| "called throws (cb # cbs) = (if throws cb then [cb] else cb # called throws cbs)"

definition build_done ::
  "('m dependency list \<Rightarrow> 'm dependency list) \<Rightarrow> ('cb \<Rightarrow> bool) \<Rightarrow> ('m, 'c, 'cb) runtime
   \<Rightarrow> 'm build_closure \<Rightarrow> ('m, 'c) failure option \<Rightarrow> ('m, 'c, 'cb) runtime" where
  "build_done sort_dependencies throws r cl error =
     (let module = cl_module cl;
          s = self r;
          mo = module_heap s module;
          annotate = (\<lambda>e. e\<lparr>e_origin := cl_origin cl, e_dependencies := cl_dependencies cl\<rparr>);
          errs = map annotate (m_errors mo);
          wars = map annotate (m_warnings mo);
          blk = m_block mo;
          mo' = mo\<lparr>m_errors := errs, m_warnings := wars,
                   m_block := Block (b_variables blk) (sort_dependencies (b_dependencies blk))
                                (b_blocks blk) (b_chunks blk),
                   m_building := None\<rparr>;
          s' = s\<lparr>errors := (if cl_optional cl then errors s else errors s @ errs),
                 warnings := (if cl_optional cl then warnings s @ errs else warnings s) @ wars,
                 module_heap := (module_heap s)(module := mo')\<rparr>
      in r\<lparr>self := s',
           events := events r
             @ [PluginCall (if error = None then ''succeed-module'' else ''failed-module'') module]
             @ map (\<lambda>cb. CallbackCall cb error) (called throws (arrays r (cl_building cl)))\<rparr>)"

text \<open>A run of requests, each \<open>(module, optional, origin, dependencies, callback)\<close>.\<close>

fun buildModules ::
  "('m \<times> bool \<times> 'm option \<times> 'm dependency list option \<times> 'cb) list \<Rightarrow> ('m, 'c, 'cb) runtime
   \<Rightarrow> ('m, 'c, 'cb) runtime" where
  "buildModules [] r = r"
| "buildModules ((module, optional, origin, dependencies, cb) # rest) r =
     buildModules rest (buildModule r module optional origin dependencies cb)"

text \<open>The calls of \<open>module.build\<close> on a module among some events, and the callbacks that
  a run of requests passes for a module.\<close>

fun builds_started :: "'m \<Rightarrow> ('m, 'c, 'cb) event list \<Rightarrow> 'm build_closure list" where
  "builds_started module [] = []"
| "builds_started module (ModuleBuild cl # es) =
     (if cl_module cl = module then cl # builds_started module es else builds_started module es)"
| "builds_started module (e # es) = builds_started module es"

fun callbacks_for ::
  "'m \<Rightarrow> ('m \<times> bool \<times> 'm option \<times> 'm dependency list option \<times> 'cb) list \<Rightarrow> 'cb list" where
  "callbacks_for module [] = []"
| "callbacks_for module ((m, optional, origin, dependencies, cb) # rest) =
     (if m = module then cb # callbacks_for module rest else callbacks_for module rest)"

text \<open>The references in the fields \<open>building\<close> are allocated, and two modules do not
  share an array.\<close>

definition building_refs_ok :: "('m, 'c, 'cb) runtime \<Rightarrow> bool" where
  "building_refs_ok r \<longleftrightarrow>
     (\<forall>m b. building_of r m = Some b \<longrightarrow> b < next_array r)
     \<and> (\<forall>m m' b. building_of r m = Some b \<longrightarrow> building_of r m' = Some b \<longrightarrow> m = m')"

lemma builds_started_append:
  "builds_started module (es @ fs) = builds_started module es @ builds_started module fs"
  by (induction module es rule: builds_started.induct) auto

lemma buildModule_step:
  assumes "building_refs_ok r" and "building_of r M = Some b"
  shows "building_refs_ok (buildModule r m optional origin dependencies cb)"
    and "building_of (buildModule r m optional origin dependencies cb) M = Some b"
    and "arrays (buildModule r m optional origin dependencies cb) b =
           arrays r b @ (if m = M then [cb] else [])"
    and "builds_started M (events (buildModule r m optional origin dependencies cb)) =
           builds_started M (events r)"
proof -
  show "building_refs_ok (buildModule r m optional origin dependencies cb)"
    using assms(1)
    by (auto simp: building_refs_ok_def buildModule_def building_of_def set_building_def Let_def
        less_Suc_eq split: option.splits if_splits)
  show "building_of (buildModule r m optional origin dependencies cb) M = Some b"
    using assms
    by (auto simp: building_refs_ok_def buildModule_def building_of_def set_building_def Let_def
        split: option.splits)
  show "arrays (buildModule r m optional origin dependencies cb) b =
           arrays r b @ (if m = M then [cb] else [])"
    using assms
    by (auto simp: building_refs_ok_def buildModule_def building_of_def set_building_def Let_def
        split: option.splits)
  show "builds_started M (events (buildModule r m optional origin dependencies cb)) =
           builds_started M (events r)"
    using assms
    by (auto simp: buildModule_def building_of_def Let_def builds_started_append
        split: option.splits)
qed

lemma buildModules_queue:
  assumes "building_refs_ok r" and "building_of r M = Some b"
  shows "building_of (buildModules reqs r) M = Some b
       \<and> arrays (buildModules reqs r) b = arrays r b @ callbacks_for M reqs
       \<and> builds_started M (events (buildModules reqs r)) = builds_started M (events r)"
  using assms
proof (induction reqs r rule: buildModules.induct)
  case (1 r)
  then show ?case by simp
next
  case (2 module optional origin dependencies cb rest r)
  from buildModule_step [OF "2.prems", of module optional origin dependencies cb] "2.IH"
  show ?case by auto
qed

lemma buildModule_idle:
  assumes "building_refs_ok r" and "building_of r M = None"
  shows "building_refs_ok (buildModule r M optional origin dependencies cb)"
    and "building_of (buildModule r M optional origin dependencies cb) M = Some (next_array r)"
    and "arrays (buildModule r M optional origin dependencies cb) (next_array r) = [cb]"
    and "builds_started M (events (buildModule r M optional origin dependencies cb)) =
           builds_started M (events r) @
             [\<lparr>cl_module = M, cl_building = next_array r, cl_optional = optional,
               cl_origin = origin, cl_dependencies = dependencies\<rparr>]"
  using assms
  by (auto simp: building_refs_ok_def buildModule_def building_of_def set_building_def Let_def
      builds_started_append less_Suc_eq split: option.splits if_splits)

lemma called_all: "(\<And>cb. cb \<in> set cbs \<Longrightarrow> \<not> throws cb) \<Longrightarrow> called throws cbs = cbs"
  by (induction cbs) simp_all

lemma build_done_result:
  "building_of (build_done sd throws r cl error) (cl_module cl) = None"
  "events (build_done sd throws r cl error) =
     events r
     @ [PluginCall (if error = None then ''succeed-module'' else ''failed-module'') (cl_module cl)]
     @ map (\<lambda>cb. CallbackCall cb error) (called throws (arrays r (cl_building cl)))"
  by (simp_all add: build_done_def building_of_def Let_def)

lemma called_prefix:
  "called throws cbs =
     takeWhile (\<lambda>cb. \<not> throws cb) cbs @ take 1 (dropWhile (\<lambda>cb. \<not> throws cb) cbs)"
  by (induction cbs) simp_all

text \<open>
  C7. A module \<open>M\<close> is idle and \<open>buildModule\<close> is called for it with callback \<open>cb0\<close>; this
  starts a build, with closure \<open>k\<close>. Any requests \<open>reqs\<close> follow, for \<open>M\<close> and for other
  modules, while that build is in flight. Then \<open>M.building\<close> is still the array of \<open>k\<close>,
  no further \<open>module.build\<close> has been called on \<open>M\<close>, and the array holds \<open>cb0\<close> and the
  callbacks of the requests for \<open>M\<close> in order. When the build completes with result
  \<open>error\<close>, \<open>M.building\<close> is unset and the callbacks of the array are called with
  \<open>error\<close> in order, each once for each time it was passed, up to and including the first
  one that throws; if none of them throws, these are all callbacks of the array.
\<close>

theorem buildModule_single_flight:
  assumes "building_refs_ok r0" and "building_of r0 M = None"
    and "k = \<lparr>cl_module = M, cl_building = next_array r0, cl_optional = optional,
              cl_origin = origin, cl_dependencies = dependencies\<rparr>"
    and "r2 = buildModules reqs (buildModule r0 M optional origin dependencies cb0)"
  shows "building_of r2 M = Some (cl_building k)
       \<and> builds_started M (events r2) = builds_started M (events r0) @ [k]
       \<and> arrays r2 (cl_building k) = cb0 # callbacks_for M reqs
       \<and> building_of (build_done sd throws r2 k error) M = None
       \<and> events (build_done sd throws r2 k error) =
           events r2
           @ [PluginCall (if error = None then ''succeed-module'' else ''failed-module'') M]
           @ map (\<lambda>cb. CallbackCall cb error)
               (takeWhile (\<lambda>cb. \<not> throws cb) (cb0 # callbacks_for M reqs)
                @ take 1 (dropWhile (\<lambda>cb. \<not> throws cb) (cb0 # callbacks_for M reqs)))
       \<and> ((\<forall>cb \<in> set (cb0 # callbacks_for M reqs). \<not> throws cb) \<longrightarrow>
            events (build_done sd throws r2 k error) =
              events r2
              @ [PluginCall (if error = None then ''succeed-module'' else ''failed-module'') M]
              @ map (\<lambda>cb. CallbackCall cb error) (cb0 # callbacks_for M reqs))"
proof -
  let ?r1 = "buildModule r0 M optional origin dependencies cb0"
  let ?queue = "cb0 # callbacks_for M reqs"
  note first = buildModule_idle [OF assms(1,2), of optional origin dependencies cb0]
  from buildModules_queue [OF first(1,2), of reqs]
  have q: "building_of r2 M = Some (next_array r0)"
    "arrays r2 (next_array r0) = arrays ?r1 (next_array r0) @ callbacks_for M reqs"
    "builds_started M (events r2) = builds_started M (events ?r1)"
    unfolding assms(4) by simp_all
  have km: "cl_module k = M" and kb: "cl_building k = next_array r0"
    by (simp_all add: assms(3))
  have arr: "arrays r2 (cl_building k) = ?queue"
    using q(2) first(3) kb by simp
  have started: "builds_started M (events r2) = builds_started M (events r0) @ [k]"
    using q(3) first(4) assms(3) by simp
  from build_done_result [of sd throws r2 k error] km
  have done1: "building_of (build_done sd throws r2 k error) M = None"
    and done2: "events (build_done sd throws r2 k error) =
           events r2
           @ [PluginCall (if error = None then ''succeed-module'' else ''failed-module'') M]
           @ map (\<lambda>cb. CallbackCall cb error) (called throws ?queue)"
    unfolding arr by simp_all
  have done3: "events (build_done sd throws r2 k error) =
           events r2
           @ [PluginCall (if error = None then ''succeed-module'' else ''failed-module'') M]
           @ map (\<lambda>cb. CallbackCall cb error) ?queue"
    if "\<forall>cb \<in> set ?queue. \<not> throws cb"
  proof -
    have "called throws ?queue = ?queue"
      by (rule called_all) (use that in blast)
    with done2 show ?thesis by simp
  qed
  note done2' = done2 [unfolded called_prefix [of throws ?queue]]
  have flight: "building_of r2 M = Some (cl_building k)"
    using q(1) kb by simp
  from flight started arr done1 done2' done3 show ?thesis by blast
qed

definition demo_runtime :: "(nat, nat, nat) runtime" where
  "demo_runtime = \<lparr>self = demo_compilation, arrays = (\<lambda>b. []), next_array = 0, events = []\<rparr>"

definition demo_requests ::
  "(nat \<times> bool \<times> nat option \<times> nat dependency list option \<times> nat) list" where
  "demo_requests = [(0, True, None, None, 11), (1, False, None, None, 12), (0, False, None, None, 13)]"

theorem buildModule_single_flight_witness:
  "building_refs_ok demo_runtime
   \<and> building_of demo_runtime 0 = None
   \<and> arrays (buildModules demo_requests (buildModule demo_runtime 0 False None None 10)) 0
       = [10, 11, 13]
   \<and> builds_started 0
        (events (buildModules demo_requests (buildModule demo_runtime 0 False None None 10)))
       = [\<lparr>cl_module = 0, cl_building = 0, cl_optional = False, cl_origin = None,
           cl_dependencies = None\<rparr>]
   \<and> events (build_done (\<lambda>ds. ds) (\<lambda>cb. cb = 12)
        (buildModules demo_requests (buildModule demo_runtime 0 False None None 10))
        \<lparr>cl_module = 0, cl_building = 0, cl_optional = False, cl_origin = None,
          cl_dependencies = None\<rparr> None)
       = events (buildModules demo_requests (buildModule demo_runtime 0 False None None 10))
         @ [PluginCall ''succeed-module'' 0,
            CallbackCall 10 None, CallbackCall 11 None, CallbackCall 13 None]"
proof -
  have ok: "building_refs_ok demo_runtime"
    by (simp add: building_refs_ok_def building_of_def demo_runtime_def demo_compilation_def
        new_compilation_def demo_module_def)
  have idle: "building_of demo_runtime 0 = None"
    by (simp add: building_of_def demo_runtime_def demo_compilation_def
        new_compilation_def demo_module_def)
  have n: "next_array demo_runtime = 0" and e: "events demo_runtime = []"
    by (simp_all add: demo_runtime_def)
  from buildModule_single_flight [OF ok idle refl refl, where optional = False
      and origin = None and dependencies = None and reqs = demo_requests and ?cb0.0 = 10
      and sd = "\<lambda>ds. ds" and error = None and throws = "\<lambda>cb. cb = 12"]
  show ?thesis using ok idle by (simp add: n e demo_requests_def)
qed

text \<open>
  The same requests, where the callback 11 throws: the array of the build holds 10, 11
  and 13, and when the build completes 10 and 11 are called and 13 is not.
\<close>

theorem buildModule_throwing_callback_ends_notification:
  "arrays (buildModules demo_requests (buildModule demo_runtime 0 False None None 10)) 0
       = [10, 11, 13]
   \<and> events (build_done (\<lambda>ds. ds) (\<lambda>cb. cb = 11)
        (buildModules demo_requests (buildModule demo_runtime 0 False None None 10))
        \<lparr>cl_module = 0, cl_building = 0, cl_optional = False, cl_origin = None,
          cl_dependencies = None\<rparr> None)
       = events (buildModules demo_requests (buildModule demo_runtime 0 False None None 10))
         @ [PluginCall ''succeed-module'' 0, CallbackCall 10 None, CallbackCall 11 None]
   \<and> CallbackCall 13 None \<notin> set (events (build_done (\<lambda>ds. ds) (\<lambda>cb. cb = 11)
        (buildModules demo_requests (buildModule demo_runtime 0 False None None 10))
        \<lparr>cl_module = 0, cl_building = 0, cl_optional = False, cl_origin = None,
          cl_dependencies = None\<rparr> None))"
  by (simp add: build_done_def buildModule_def building_of_def set_building_def
      demo_requests_def demo_runtime_def demo_compilation_def new_compilation_def
      demo_module_def Let_def)

section \<open>\<open>createChunkAssets\<close>\<close>

text \<open>
  The methods of \<open>Chunk\<close> called here and in \<open>createHash\<close> that are defined elsewhere;
  they depend on the chunk graph, which neither of the two methods changes.
\<close>

record 'c chunk_class =
  hasRuntime :: "'c \<Rightarrow> bool"
  isInitial :: "'c \<Rightarrow> bool"

text \<open>
  The output options and the templates as \<open>createChunkAssets\<close> uses them. A template's
  \<open>render\<close> and the waterfall \<open>asset-path\<close> behind \<open>getPath\<close> run code outside this file
  and may throw; so may the handlers of \<open>chunk-asset\<close>. \<open>mainTemplate.useChunkHash\<close> may
  be absent.
\<close>

record ('m, 'c) emitter =
  filename :: string
  chunkFilename :: string
  useChunkHash :: "('c \<Rightarrow> bool) option"
  mainTemplate_render :: "string option \<Rightarrow> 'c \<Rightarrow> ('m, 'c) failure + source"
  chunkTemplate_render :: "'c \<Rightarrow> ('m, 'c) failure + source"
  asset_path :: "string \<Rightarrow> bool \<Rightarrow> 'c \<Rightarrow> string option \<Rightarrow> ('m, 'c) failure + string"
  chunk_asset_plugins :: "'c \<Rightarrow> string \<Rightarrow> ('m, 'c) failure option"

fun as_cached :: "source \<Rightarrow> source" where
  "as_cached (Source x) = CachedSource x"
| "as_cached (CachedSource x) = CachedSource x"

definition set_files :: "('m, 'c) compilation \<Rightarrow> 'c \<Rightarrow> string list \<Rightarrow> ('m, 'c) compilation" where
  "set_files s chunk fs =
     s\<lparr>chunk_heap := (chunk_heap s)(chunk := (chunk_heap s chunk)\<lparr>c_files := fs\<rparr>)\<rparr>"

definition push_error :: "('m, 'c) compilation \<Rightarrow> ('m, 'c) failure \<Rightarrow> ('m, 'c) compilation" where
  "push_error s f = s\<lparr>errors := errors s @ [new_error f]\<rparr>"

definition filenameTemplate_of ::
  "'c chunk_class \<Rightarrow> ('m, 'c) emitter \<Rightarrow> ('m, 'c) compilation \<Rightarrow> 'c \<Rightarrow> string" where
  "filenameTemplate_of cc env s chunk =
     (case c_filenameTemplate (chunk_heap s chunk) of
        Some t \<Rightarrow> if t \<noteq> [] then t
                  else if isInitial cc chunk then filename env else chunkFilename env
      | None \<Rightarrow> if isInitial cc chunk then filename env else chunkFilename env)"

text \<open>
  Lines 1179--1200 of the \<open>try\<close> block: the source of the chunk, from the cache or
  rendered, and its path. The result is the exception thrown, or the path and the
  source; the state changes in the cache only. An entry of the cache under the name
  \<open>"c" + chunk.id\<close> that was not stored by this loop is taken as a miss.
\<close>

definition resolve_chunk ::
  "'c chunk_class \<Rightarrow> ('m, 'c) emitter \<Rightarrow> ('m, 'c) compilation \<Rightarrow> 'c
   \<Rightarrow> (('m, 'c) failure + string \<times> source) \<times> ('m, 'c) compilation" where
  "resolve_chunk cc env s chunk =
     (let chunkHash = c_hash (chunk_heap s chunk);
          filenameTemplate = filenameTemplate_of cc env s chunk;
          use = (\<not> hasRuntime cc chunk
                 \<or> (case useChunkHash env of None \<Rightarrow> False | Some f \<Rightarrow> f chunk));
          usedHash = (if use then chunkHash else fullHash s);
          cacheName = ''c'' @ key_of_id (c_id (chunk_heap s chunk));
          hit = (case cache_get s cacheName of
                   Own (CachedChunk h src) \<Rightarrow> if h = usedHash then Some src else None
                 | _ \<Rightarrow> None);
          rendered =
            (case hit of
               Some src \<Rightarrow> (Inr src, s)
             | None \<Rightarrow>
                 (case (if hasRuntime cc chunk then mainTemplate_render env (hash s) chunk
                        else chunkTemplate_render env chunk) of
                    Inl err \<Rightarrow> (Inl err, s)
                  | Inr src \<Rightarrow>
                      (case cache s of
                         None \<Rightarrow> (Inr src, s)
                       | Some c \<Rightarrow>
                           (Inr (as_cached src),
                            s\<lparr>cache := Some (c(cacheName \<mapsto> CachedChunk usedHash (as_cached src)))\<rparr>))))
      in case rendered of
           (Inl err, s1) \<Rightarrow> (Inl err, s1)
         | (Inr src, s1) \<Rightarrow>
             (case asset_path env filenameTemplate (\<not> use) chunk (hash s1) of
                Inl err \<Rightarrow> (Inl err, s1)
              | Inr file \<Rightarrow> (Inr (file, src), s1)))"

text \<open>One round of the loop (lines 1170--1208). In the \<open>catch\<close> block the error names
  \<open>file || filenameTemplate\<close>: the template when no path was computed or the path is
  the empty string.\<close>

definition emit_chunk ::
  "'c chunk_class \<Rightarrow> ('m, 'c) emitter \<Rightarrow> 'c \<Rightarrow> ('m, 'c) compilation \<Rightarrow> ('m, 'c) compilation" where
  "emit_chunk cc env chunk s =
     (let s0 = set_files s chunk [];
          filenameTemplate = filenameTemplate_of cc env s0 chunk
      in case resolve_chunk cc env s0 chunk of
           (Inl err, s1) \<Rightarrow> push_error s1 (ChunkRenderError chunk filenameTemplate err)
         | (Inr (file, src), s1) \<Rightarrow>
             (let name = (if file = [] then filenameTemplate else file) in
              if truthy (obj_get (assets s1) file)
              then push_error s1 (ChunkRenderError chunk name
                     (Error (''Conflict: Multiple assets emit to the same filename '' @ file)))
              else
                let s2 = s1\<lparr>assets := (assets s1)(file \<mapsto> src)\<rparr>;
                    s3 = set_files s2 chunk (c_files (chunk_heap s2 chunk) @ [file])
                in case chunk_asset_plugins env chunk file of
                     None \<Rightarrow> s3
                   | Some err \<Rightarrow> push_error s3 (ChunkRenderError chunk name err)))"

definition emit_chunks ::
  "'c chunk_class \<Rightarrow> ('m, 'c) emitter \<Rightarrow> 'c list \<Rightarrow> ('m, 'c) compilation \<Rightarrow> ('m, 'c) compilation" where
  "emit_chunks cc env cs s = fold (emit_chunk cc env) cs s"

definition createChunkAssets ::
  "'c chunk_class \<Rightarrow> ('m, 'c) emitter \<Rightarrow> ('m, 'c) compilation \<Rightarrow> ('m, 'c) compilation" where
  "createChunkAssets cc env s = emit_chunks cc env (chunks s) s"

text \<open>A chunk resolves to a path and a source in a state.\<close>

definition resolves_to ::
  "'c chunk_class \<Rightarrow> ('m, 'c) emitter \<Rightarrow> ('m, 'c) compilation \<Rightarrow> 'c \<Rightarrow> string \<Rightarrow> source \<Rightarrow> bool" where
  "resolves_to cc env s chunk file src \<longleftrightarrow>
     fst (resolve_chunk cc env (set_files s chunk []) chunk) = Inr (file, src)"

definition conflict_error :: "'c chunk_class \<Rightarrow> ('m, 'c) emitter \<Rightarrow> ('m, 'c) compilation
   \<Rightarrow> 'c \<Rightarrow> string \<Rightarrow> ('m, 'c) report" where
  "conflict_error cc env s chunk file =
     new_error (ChunkRenderError chunk
        (if file = [] then filenameTemplate_of cc env s chunk else file)
        (Error (''Conflict: Multiple assets emit to the same filename '' @ file)))"

lemma resolve_chunk_frame:
  "assets (snd (resolve_chunk cc env s chunk)) = assets s"
  "errors (snd (resolve_chunk cc env s chunk)) = errors s"
  "chunk_heap (snd (resolve_chunk cc env s chunk)) = chunk_heap s"
  "chunks (snd (resolve_chunk cc env s chunk)) = chunks s"
  by (simp_all add: resolve_chunk_def Let_def
      split: option.splits sum.splits js_lookup.splits cache_entry.splits prod.splits)

lemma filenameTemplate_set_files [simp]:
  "filenameTemplate_of cc env (set_files s c fs) chunk = filenameTemplate_of cc env s chunk"
  by (simp add: filenameTemplate_of_def set_files_def)

lemma set_files_frame [simp]:
  "cache (set_files s c fs) = cache s"
  "assets (set_files s c fs) = assets s"
  "errors (set_files s c fs) = errors s"
  "chunks (set_files s c fs) = chunks s"
  "c_files (chunk_heap (set_files s c fs) d) = (if d = c then fs else c_files (chunk_heap s d))"
  by (simp_all add: set_files_def)

lemma push_error_frame [simp]:
  "cache (push_error s f) = cache s"
  "assets (push_error s f) = assets s"
  "errors (push_error s f) = errors s @ [new_error f]"
  "chunks (push_error s f) = chunks s"
  "chunk_heap (push_error s f) = chunk_heap s"
  by (simp_all add: push_error_def)

lemma emit_chunk_conflict:
  assumes "resolves_to cc env s chunk file src" and "truthy (obj_get (assets s) file)"
  shows "errors (emit_chunk cc env chunk s) = errors s @ [conflict_error cc env s chunk file]"
    and "assets (emit_chunk cc env chunk s) = assets s"
    and "c_files (chunk_heap (emit_chunk cc env chunk s) chunk) = []"
proof -
  obtain s1 where r: "resolve_chunk cc env (set_files s chunk []) chunk = (Inr (file, src), s1)"
    using assms(1) unfolding resolves_to_def by (metis prod.collapse)
  from resolve_chunk_frame [of cc env "set_files s chunk []" chunk] r
  have f: "assets s1 = assets s" "errors s1 = errors s"
    "chunk_heap s1 = chunk_heap (set_files s chunk [])"
    by simp_all
  show "errors (emit_chunk cc env chunk s) = errors s @ [conflict_error cc env s chunk file]"
    using assms(2) by (simp add: emit_chunk_def r f Let_def conflict_error_def)
  show "assets (emit_chunk cc env chunk s) = assets s"
    using assms(2) by (simp add: emit_chunk_def r f Let_def)
  show "c_files (chunk_heap (emit_chunk cc env chunk s) chunk) = []"
    using assms(2) by (simp add: emit_chunk_def r f Let_def)
qed

lemma emit_chunk_fresh:
  assumes "resolves_to cc env s chunk file src" and "\<not> truthy (obj_get (assets s) file)"
  shows "obj_get (assets (emit_chunk cc env chunk s)) file = Own src"
    and "c_files (chunk_heap (emit_chunk cc env chunk s) chunk) = [file]"
proof -
  obtain s1 where r: "resolve_chunk cc env (set_files s chunk []) chunk = (Inr (file, src), s1)"
    using assms(1) unfolding resolves_to_def by (metis prod.collapse)
  from resolve_chunk_frame [of cc env "set_files s chunk []" chunk] r
  have f: "assets s1 = assets s" "errors s1 = errors s"
    "chunk_heap s1 = chunk_heap (set_files s chunk [])"
    by simp_all
  show "obj_get (assets (emit_chunk cc env chunk s)) file = Own src"
    using assms(2)
    by (simp add: emit_chunk_def r f Let_def obj_get_def split: option.splits)
  show "c_files (chunk_heap (emit_chunk cc env chunk s) chunk) = [file]"
    using assms(2)
    by (simp add: emit_chunk_def r f Let_def split: option.splits)
qed

lemma emit_chunk_assets:
  "assets (emit_chunk cc env chunk s) = assets s
   \<or> (\<exists>g src. \<not> truthy (obj_get (assets s) g)
         \<and> assets (emit_chunk cc env chunk s) = (assets s)(g \<mapsto> src))"
proof -
  obtain res s1 where r: "resolve_chunk cc env (set_files s chunk []) chunk = (res, s1)"
    by (metis prod.collapse)
  from resolve_chunk_frame [of cc env "set_files s chunk []" chunk] r
  have f: "assets s1 = assets s" by simp
  show ?thesis
  proof (cases res)
    case (Inl err)
    then show ?thesis by (simp add: emit_chunk_def r f Let_def)
  next
    case (Inr fs)
    obtain g src where fs: "fs = (g, src)" by (cases fs)
    show ?thesis
    proof (cases "truthy (obj_get (assets s) g)")
      case True
      then show ?thesis using Inr fs by (simp add: emit_chunk_def r f Let_def)
    next
      case False
      then have "assets (emit_chunk cc env chunk s) = (assets s)(g \<mapsto> src)"
        using Inr fs by (simp add: emit_chunk_def r f Let_def split: option.splits)
      with False show ?thesis by blast
    qed
  qed
qed

lemma emit_chunk_keeps_asset:
  assumes "obj_get (assets s) file = Own v"
  shows "obj_get (assets (emit_chunk cc env chunk s)) file = Own v"
proof -
  from emit_chunk_assets [of cc env chunk s]
  consider "assets (emit_chunk cc env chunk s) = assets s"
    | g src where "\<not> truthy (obj_get (assets s) g)"
        "assets (emit_chunk cc env chunk s) = (assets s)(g \<mapsto> src)"
    by blast
  then show ?thesis
  proof cases
    case 1
    then show ?thesis using assms by simp
  next
    case 2
    with assms have "g \<noteq> file" by auto
    with 2(2) assms show ?thesis by (simp add: obj_get_def)
  qed
qed

lemma emit_chunk_other_files:
  assumes "d \<noteq> chunk"
  shows "c_files (chunk_heap (emit_chunk cc env chunk s) d) = c_files (chunk_heap s d)"
proof -
  obtain res s1 where r: "resolve_chunk cc env (set_files s chunk []) chunk = (res, s1)"
    by (metis prod.collapse)
  from resolve_chunk_frame [of cc env "set_files s chunk []" chunk] r
  have f: "chunk_heap s1 = chunk_heap (set_files s chunk [])" by simp
  show ?thesis using assms
    by (simp add: emit_chunk_def r f Let_def split: sum.splits option.splits prod.splits)
qed

lemma emit_chunk_errors_grow:
  "\<exists>more. errors (emit_chunk cc env chunk s) = errors s @ more"
proof -
  obtain res s1 where r: "resolve_chunk cc env (set_files s chunk []) chunk = (res, s1)"
    by (metis prod.collapse)
  from resolve_chunk_frame [of cc env "set_files s chunk []" chunk] r
  have f: "errors s1 = errors s" by simp
  show ?thesis
    by (simp add: emit_chunk_def r f Let_def split: sum.splits option.splits prod.splits)
qed

lemma emit_chunks_keeps_asset:
  "obj_get (assets s) file = Own v \<Longrightarrow> obj_get (assets (emit_chunks cc env cs s)) file = Own v"
  unfolding emit_chunks_def
  by (induction cs arbitrary: s) (simp_all add: emit_chunk_keeps_asset)

lemma emit_chunks_other_files:
  "d \<notin> set cs \<Longrightarrow>
   c_files (chunk_heap (emit_chunks cc env cs s) d) = c_files (chunk_heap s d)"
  unfolding emit_chunks_def
  by (induction cs arbitrary: s) (simp_all add: emit_chunk_other_files)

lemma emit_chunks_errors_grow:
  "\<exists>more. errors (emit_chunks cc env cs s) = errors s @ more"
  unfolding emit_chunks_def
proof (induction cs arbitrary: s)
  case Nil
  show ?case by simp
next
  case (Cons c cs)
  obtain m1 where "errors (emit_chunk cc env c s) = errors s @ m1"
    using emit_chunk_errors_grow [of cc env c s] by blast
  moreover obtain m2 where
    "errors (fold (emit_chunk cc env) cs (emit_chunk cc env c s)) =
       errors (emit_chunk cc env c s) @ m2"
    using Cons.IH [of "emit_chunk cc env c s"] by blast
  ultimately show ?case by simp
qed

lemma emit_chunks_append:
  "emit_chunks cc env (xs @ ys) s = emit_chunks cc env ys (emit_chunks cc env xs s)"
  by (simp add: emit_chunks_def)

lemma emit_chunks_Cons:
  "emit_chunks cc env (x # xs) s = emit_chunks cc env xs (emit_chunk cc env x s)"
  by (simp add: emit_chunks_def)

text \<open>
  C8. Among the chunks of the compilation, in order, let \<open>earlier\<close> resolve to the path
  \<open>file\<close> when no asset is stored there, and let \<open>later\<close>, further on, resolve to the
  same path. Then the round for \<open>later\<close> appends one \<open>ChunkRenderError\<close> for \<open>later\<close>,
  carrying the conflict, to the errors and stores nothing; the error is still in the
  list at the end; the asset of \<open>earlier\<close> is in the assets map at the end; and the loop
  goes on with the remaining chunks: each of them that resolves to a path with no asset
  there has its source stored under that path and, in its last round, that path as its
  list of files.
\<close>

theorem asset_conflict_recorded:
  assumes "chunks s = pre @ earlier # mid @ later # rest"
    and "s_e = emit_chunks cc env pre s"
    and "s_l = emit_chunks cc env (pre @ earlier # mid) s"
    and "resolves_to cc env s_e earlier file src_e"
    and "\<not> truthy (obj_get (assets s_e) file)"
    and "resolves_to cc env s_l later file src_l"
  shows "errors (emit_chunk cc env later s_l) = errors s_l @ [conflict_error cc env s_l later file]
       \<and> assets (emit_chunk cc env later s_l) = assets s_l
       \<and> (\<exists>more. errors (createChunkAssets cc env s) =
                    errors s_l @ [conflict_error cc env s_l later file] @ more)
       \<and> obj_get (assets (createChunkAssets cc env s)) file = Own src_e
       \<and> createChunkAssets cc env s = emit_chunks cc env rest (emit_chunk cc env later s_l)
       \<and> (\<forall>r1 d r2 g src.
             rest = r1 @ d # r2 \<and> d \<notin> set r2
             \<and> resolves_to cc env (emit_chunks cc env r1 (emit_chunk cc env later s_l)) d g src
             \<and> \<not> truthy (obj_get (assets (emit_chunks cc env r1 (emit_chunk cc env later s_l))) g)
             \<longrightarrow> obj_get (assets (createChunkAssets cc env s)) g = Own src
                 \<and> c_files (chunk_heap (createChunkAssets cc env s) d) = [g])"
proof -
  let ?s_c = "emit_chunk cc env later s_l"
  have final: "createChunkAssets cc env s = emit_chunks cc env rest ?s_c"
    unfolding createChunkAssets_def assms(1) assms(3)
    by (simp add: emit_chunks_def)
  have "s_l = emit_chunks cc env mid (emit_chunk cc env earlier s_e)"
    unfolding assms(2,3) by (simp add: emit_chunks_def)
  moreover have "obj_get (assets (emit_chunk cc env earlier s_e)) file = Own src_e"
    using emit_chunk_fresh(1) [OF assms(4,5)] .
  ultimately have stored: "obj_get (assets s_l) file = Own src_e"
    by (simp add: emit_chunks_keeps_asset)
  then have taken: "truthy (obj_get (assets s_l) file)" by simp
  note conflict = emit_chunk_conflict [OF assms(6) taken]
  have c1: "errors ?s_c = errors s_l @ [conflict_error cc env s_l later file]"
    using conflict(1) .
  have c2: "assets ?s_c = assets s_l"
    using conflict(2) .
  obtain more where "errors (emit_chunks cc env rest ?s_c) = errors ?s_c @ more"
    using emit_chunks_errors_grow [of cc env rest ?s_c] by blast
  then have c3: "\<exists>more. errors (createChunkAssets cc env s) =
                    errors s_l @ [conflict_error cc env s_l later file] @ more"
    unfolding final c1 by simp
  have c4: "obj_get (assets (createChunkAssets cc env s)) file = Own src_e"
    unfolding final using stored c2 by (simp add: emit_chunks_keeps_asset)
  have c5: "\<forall>r1 d r2 g src.
             rest = r1 @ d # r2 \<and> d \<notin> set r2
             \<and> resolves_to cc env (emit_chunks cc env r1 ?s_c) d g src
             \<and> \<not> truthy (obj_get (assets (emit_chunks cc env r1 ?s_c)) g)
             \<longrightarrow> obj_get (assets (createChunkAssets cc env s)) g = Own src
                 \<and> c_files (chunk_heap (createChunkAssets cc env s) d) = [g]"
  proof (intro allI impI, elim conjE)
    fix r1 d r2 g src
    assume rest: "rest = r1 @ d # r2" and last: "d \<notin> set r2"
      and res: "resolves_to cc env (emit_chunks cc env r1 ?s_c) d g src"
      and free: "\<not> truthy (obj_get (assets (emit_chunks cc env r1 ?s_c)) g)"
    let ?s_d = "emit_chunks cc env r1 ?s_c"
    have fin: "createChunkAssets cc env s = emit_chunks cc env r2 (emit_chunk cc env d ?s_d)"
      unfolding final rest by (simp add: emit_chunks_def)
    from emit_chunk_fresh [OF res free]
    have "obj_get (assets (emit_chunk cc env d ?s_d)) g = Own src"
      and "c_files (chunk_heap (emit_chunk cc env d ?s_d) d) = [g]"
      by simp_all
    then show "obj_get (assets (createChunkAssets cc env s)) g = Own src
                 \<and> c_files (chunk_heap (createChunkAssets cc env s) d) = [g]"
      unfolding fin using last
      by (simp add: emit_chunks_keeps_asset emit_chunks_other_files)
  qed
  from c1 c2 c3 c4 final c5 show ?thesis by blast
qed

text \<open>Three chunks, 5, 6 and 7, without runtime; the first two are given the same file name.\<close>

definition demo_chunk_class :: "nat chunk_class" where
  "demo_chunk_class = \<lparr>hasRuntime = (\<lambda>c. False), isInitial = (\<lambda>c. True)\<rparr>"

definition demo_emitter :: "(nat, nat) emitter" where
  "demo_emitter =
     \<lparr>filename = ''[name].js'', chunkFilename = ''[id].js'', useChunkHash = None,
      mainTemplate_render = (\<lambda>h c. Inr (Source ''runtime'')),
      chunkTemplate_render =
        (\<lambda>c. Inr (Source (if c = 5 then ''five'' else if c = 6 then ''six'' else ''seven''))),
      asset_path = (\<lambda>template noChunkHash c h. Inr (if c = 7 then ''seven.js'' else ''main.js'')),
      chunk_asset_plugins = (\<lambda>c file. None)\<rparr>"

definition three_chunks :: "(nat, nat) compilation" where
  "three_chunks = demo_compilation\<lparr>chunks := [5, 6, 7]\<rparr>"

lemma demo_resolve:
  "cache s = None \<Longrightarrow>
   resolve_chunk demo_chunk_class demo_emitter s c =
     (Inr (if c = 7 then ''seven.js'' else ''main.js'',
           Source (if c = 5 then ''five'' else if c = 6 then ''six'' else ''seven'')), s)"
  by (simp add: resolve_chunk_def demo_chunk_class_def demo_emitter_def cache_get_def Let_def)

lemma emit_chunk_no_cache:
  assumes "cache s = None"
  shows "cache (emit_chunk cc env chunk s) = None"
proof -
  obtain res s1 where r: "resolve_chunk cc env (set_files s chunk []) chunk = (res, s1)"
    by (metis prod.collapse)
  have "cache (snd (resolve_chunk cc env (set_files s chunk []) chunk)) = None"
    using assms
    by (simp add: resolve_chunk_def cache_get_def Let_def
        split: option.splits sum.splits prod.splits)
  then have "cache s1 = None" by (simp add: r)
  then show ?thesis
    by (simp add: emit_chunk_def r Let_def split: option.splits sum.splits prod.splits)
qed

lemma emit_chunk_fresh_errors:
  assumes "resolves_to cc env s chunk file src" and "\<not> truthy (obj_get (assets s) file)"
    and "chunk_asset_plugins env chunk file = None"
  shows "errors (emit_chunk cc env chunk s) = errors s"
proof -
  obtain s1 where r: "resolve_chunk cc env (set_files s chunk []) chunk = (Inr (file, src), s1)"
    using assms(1) unfolding resolves_to_def by (metis prod.collapse)
  from resolve_chunk_frame [of cc env "set_files s chunk []" chunk] r
  have f: "assets s1 = assets s" "errors s1 = errors s" by simp_all
  show ?thesis using assms(2,3) by (simp add: emit_chunk_def r f Let_def)
qed

lemma demo_plugins:
  "chunk_asset_plugins demo_emitter c file = None"
  by (simp add: demo_emitter_def)

lemma demo_emit_first:
  "emit_chunk demo_chunk_class demo_emitter 5 three_chunks =
     three_chunks\<lparr>assets := [''main.js'' \<mapsto> Source ''five''],
                  chunk_heap := (chunk_heap three_chunks)(5 := demo_chunk\<lparr>c_files := [''main.js'']\<rparr>)\<rparr>"
  by (simp add: emit_chunk_def demo_resolve three_chunks_def demo_compilation_def
      new_compilation_def set_files_def obj_get_def object_prototype_names_def
      demo_plugins Let_def)

theorem asset_conflict_recorded_witness:
  "errors (createChunkAssets demo_chunk_class demo_emitter three_chunks) =
     [new_error (ChunkRenderError 6 ''main.js''
        (Error ''Conflict: Multiple assets emit to the same filename main.js''))]
   \<and> obj_get (assets (createChunkAssets demo_chunk_class demo_emitter three_chunks)) ''main.js''
       = Own (Source ''five'')
   \<and> obj_get (assets (createChunkAssets demo_chunk_class demo_emitter three_chunks)) ''seven.js''
       = Own (Source ''seven'')
   \<and> c_files (chunk_heap (createChunkAssets demo_chunk_class demo_emitter three_chunks) 7)
       = [''seven.js'']"
proof -
  let ?cc = demo_chunk_class and ?env = demo_emitter
  let ?s1 = "emit_chunk ?cc ?env 5 three_chunks"
  have a1: "assets ?s1 = [''main.js'' \<mapsto> Source ''five'']" and k1: "cache ?s1 = None"
    and e1: "errors ?s1 = []"
    unfolding demo_emit_first
    by (simp_all add: three_chunks_def demo_compilation_def new_compilation_def)
  have split: "chunks three_chunks = [] @ 5 # [] @ 6 # [7]"
    by (simp add: three_chunks_def)
  have se: "three_chunks = emit_chunks ?cc ?env [] three_chunks"
    by (simp add: emit_chunks_def)
  have sl: "?s1 = emit_chunks ?cc ?env ([] @ 5 # []) three_chunks"
    by (simp add: emit_chunks_def)
  have r0: "resolves_to ?cc ?env three_chunks 5 ''main.js'' (Source ''five'')"
    by (simp add: resolves_to_def demo_resolve set_files_def three_chunks_def
        demo_compilation_def new_compilation_def)
  have free0: "\<not> truthy (obj_get (assets three_chunks) ''main.js'')"
    by (simp add: three_chunks_def demo_compilation_def new_compilation_def obj_get_def
        object_prototype_names_def)
  have r1: "resolves_to ?cc ?env ?s1 6 ''main.js'' (Source ''six'')"
    by (simp add: resolves_to_def demo_resolve set_files_def a1 k1)
  note main = asset_conflict_recorded [OF split se sl r0 free0 r1]
  let ?s2 = "emit_chunk ?cc ?env 6 ?s1"
  have a2: "assets ?s2 = [''main.js'' \<mapsto> Source ''five'']" and e2: "errors ?s2 =
      [new_error (ChunkRenderError 6 ''main.js''
        (Error ''Conflict: Multiple assets emit to the same filename main.js''))]"
    using main by (simp_all add: a1 e1 conflict_error_def)
  have k2: "cache ?s2 = None"
    using k1 by (rule emit_chunk_no_cache)
  have r2: "resolves_to ?cc ?env (emit_chunks ?cc ?env [] ?s2) 7 ''seven.js'' (Source ''seven'')"
    by (simp add: emit_chunks_def resolves_to_def demo_resolve set_files_def a2 k2)
  have free2: "\<not> truthy (obj_get (assets (emit_chunks ?cc ?env [] ?s2)) ''seven.js'')"
    by (simp add: emit_chunks_def a2 obj_get_def object_prototype_names_def)
  from main have rest: "obj_get (assets (createChunkAssets ?cc ?env three_chunks)) ''seven.js''
       = Own (Source ''seven'')
     \<and> c_files (chunk_heap (createChunkAssets ?cc ?env three_chunks) 7) = [''seven.js'']"
    using r2 free2 by (metis append_Nil empty_iff list.set(1))
  have fin: "createChunkAssets ?cc ?env three_chunks = emit_chunk ?cc ?env 7 ?s2"
    using main by (simp add: emit_chunks_def)
  have e3: "errors (emit_chunk ?cc ?env 7 ?s2) = errors ?s2"
    using emit_chunk_fresh_errors [OF r2 free2 demo_plugins] by (simp add: emit_chunks_def)
  have kept: "obj_get (assets (createChunkAssets ?cc ?env three_chunks)) ''main.js''
       = Own (Source ''five'')"
    using main by blast
  have errs: "errors (createChunkAssets ?cc ?env three_chunks) =
     [new_error (ChunkRenderError 6 ''main.js''
        (Error ''Conflict: Multiple assets emit to the same filename main.js''))]"
    unfolding fin e3 e2 ..
  from errs kept rest show ?thesis by blast
qed

section \<open>\<open>createHash\<close>\<close>

text \<open>
  A \<open>crypto\<close> hash object is the string of the updates it has been fed; \<open>digest\<close> stands
  for \<open>crypto.createHash(hashFunction)\<close> followed by \<open>digest(hashDigest)\<close>. What the
  templates, \<open>chunk.updateHash\<close> and the handlers of \<open>chunk-hash\<close> feed into a hash is
  code outside this file; each is a function of the compilation it can read. A falsy
  \<open>hashSalt\<close> feeds nothing, as the empty string does.
\<close>

record ('m, 'c) hasher =
  hashSalt :: "string option"
  hashDigestLength :: nat
  digest :: "string \<Rightarrow> string"
  mainTemplate_updateHash :: "('m, 'c) compilation \<Rightarrow> string"
  chunkTemplate_updateHash :: "('m, 'c) compilation \<Rightarrow> string"
  moduleTemplate_updateHash :: "('m, 'c) compilation \<Rightarrow> string"
  chunk_updateHash :: "('m, 'c) compilation \<Rightarrow> 'c \<Rightarrow> string"
  mainTemplate_updateHashForChunk :: "('m, 'c) compilation \<Rightarrow> 'c \<Rightarrow> string"
  chunkTemplate_updateHashForChunk :: "('m, 'c) compilation \<Rightarrow> string"
  chunk_hash_plugins :: "('m, 'c) compilation \<Rightarrow> 'c \<Rightarrow> string"

definition salt :: "('m, 'c) hasher \<Rightarrow> string" where
  "salt env = (case hashSalt env of None \<Rightarrow> [] | Some x \<Rightarrow> x)"

definition set_chunk_hash :: "('m, 'c) compilation \<Rightarrow> 'c \<Rightarrow> string \<Rightarrow> nat \<Rightarrow> ('m, 'c) compilation" where
  "set_chunk_hash s chunk h n =
     s\<lparr>chunk_heap := (chunk_heap s)
          (chunk := (chunk_heap s chunk)\<lparr>c_hash := Some h, c_renderedHash := Some (take n h)\<rparr>)\<rparr>"

definition hash_chunk ::
  "'c chunk_class \<Rightarrow> ('m, 'c) hasher \<Rightarrow> 'c \<Rightarrow> string \<times> ('m, 'c) compilation
   \<Rightarrow> string \<times> ('m, 'c) compilation" where
  "hash_chunk cc env chunk st =
     (let hash_updates = fst st; s = snd st;
          chunkHash = salt env @ chunk_updateHash env s chunk
            @ (if hasRuntime cc chunk then mainTemplate_updateHashForChunk env s chunk
               else chunkTemplate_updateHashForChunk env s)
            @ chunk_hash_plugins env s chunk;
          h = digest env chunkHash
      in (hash_updates @ h, set_chunk_hash s chunk h (hashDigestLength env)))"

text \<open>
  The comparison function of \<open>chunks.sort\<close> (lines 1109--1115) orders the chunks by
  \<open>hasRuntime()\<close>, false first; the sort is taken to be stable.
\<close>

definition runtime_key :: "'c chunk_class \<Rightarrow> 'c \<Rightarrow> nat" where
  "runtime_key cc c = (if hasRuntime cc c then 1 else 0)"

definition createHash ::
  "'c chunk_class \<Rightarrow> ('m, 'c) hasher \<Rightarrow> ('m, 'c) compilation \<Rightarrow> ('m, 'c) compilation" where
  "createHash cc env s =
     (let hash0 = salt env @ mainTemplate_updateHash env s @ chunkTemplate_updateHash env s
                  @ moduleTemplate_updateHash env s @ concat (children s);
          sorted_chunks = sort_key (runtime_key cc) (chunks s);
          st = fold (hash_chunk cc env) sorted_chunks (hash0, s);
          full = digest env (fst st)
      in (snd st)\<lparr>fullHash := Some full, hash := Some (take (hashDigestLength env) full)\<rparr>)"

text \<open>
  The fields \<open>createHash\<close> writes: \<open>fullHash\<close> and \<open>hash\<close> of the compilation, \<open>hash\<close> and
  \<open>renderedHash\<close> of chunks. \<open>erase_on P\<close> forgets them, for the chunks in \<open>P\<close>. The
  collaborators are independent of stale hashes when none reads \<open>fullHash\<close> or \<open>hash\<close>,
  the main template's \<open>updateHashForChunk\<close> reads chunk hashes of chunks without
  runtime only (the comment at lines 1104--1108), a handler of \<open>chunk-hash\<close> does so on a
  chunk with runtime and reads no hash on another chunk, and the others read no hash.
\<close>

definition erase_on :: "('c \<Rightarrow> bool) \<Rightarrow> ('m, 'c) compilation \<Rightarrow> ('m, 'c) compilation" where
  "erase_on P s =
     s\<lparr>fullHash := None, hash := None,
       chunk_heap := (\<lambda>c. if P c then (chunk_heap s c)\<lparr>c_hash := None, c_renderedHash := None\<rparr>
                          else chunk_heap s c)\<rparr>"

definition hash_inputs_independent :: "'c chunk_class \<Rightarrow> ('m, 'c) hasher \<Rightarrow> bool" where
  "hash_inputs_independent cc env \<longleftrightarrow>
     (\<forall>s. mainTemplate_updateHash env s = mainTemplate_updateHash env (erase_on (\<lambda>c. True) s))
   \<and> (\<forall>s. chunkTemplate_updateHash env s = chunkTemplate_updateHash env (erase_on (\<lambda>c. True) s))
   \<and> (\<forall>s. moduleTemplate_updateHash env s = moduleTemplate_updateHash env (erase_on (\<lambda>c. True) s))
   \<and> (\<forall>s. chunk_updateHash env s = chunk_updateHash env (erase_on (\<lambda>c. True) s))
   \<and> (\<forall>s. chunkTemplate_updateHashForChunk env s =
            chunkTemplate_updateHashForChunk env (erase_on (\<lambda>c. True) s))
   \<and> (\<forall>s. mainTemplate_updateHashForChunk env s =
            mainTemplate_updateHashForChunk env (erase_on (hasRuntime cc) s))
   \<and> (\<forall>s c. chunk_hash_plugins env s c =
            chunk_hash_plugins env
              (erase_on (\<lambda>c'. hasRuntime cc c \<longrightarrow> hasRuntime cc c') s) c)"

lemma erase_on_absorb:
  fixes s :: "('m, 'c) compilation"
  assumes "\<And>c. P c \<Longrightarrow> Q c"
  shows "erase_on Q (erase_on P s) = erase_on Q s"
  using assms by (auto simp: erase_on_def fun_eq_iff)

lemma erase_on_mono:
  fixes s t :: "('m, 'c) compilation"
  assumes "erase_on P s = erase_on P t" and "\<And>c. P c \<Longrightarrow> Q c"
  shows "erase_on Q s = erase_on Q t"
  using erase_on_absorb [of P Q s, OF assms(2)] erase_on_absorb [of P Q t, OF assms(2)] assms(1)
  by simp

lemma erase_on_fields:
  "chunks (erase_on P s) = chunks s" "children (erase_on P s) = children s"
  by (simp_all add: erase_on_def)

lemma erase_on_eq_fields:
  assumes "erase_on P s = erase_on P t"
  shows "chunks s = chunks t" "children s = children t"
proof -
  have "chunks (erase_on P s) = chunks (erase_on P t)"
    and "children (erase_on P s) = children (erase_on P t)"
    by (simp_all only: assms)
  then show "chunks s = chunks t" "children s = children t"
    by (simp_all add: erase_on_fields)
qed

lemma set_chunk_hash_erase:
  fixes s :: "('m, 'c) compilation"
  shows "erase_on (\<lambda>c. c \<in> set rest) (set_chunk_hash s chunk h n) =
     (if chunk \<in> set rest then erase_on (\<lambda>c. c \<in> set (chunk # rest)) s
      else set_chunk_hash (erase_on (\<lambda>c. c \<in> set (chunk # rest)) s) chunk h n)"
  by (auto simp: erase_on_def set_chunk_hash_def fun_eq_iff)

lemma set_chunk_hash_fields [simp]:
  "chunks (set_chunk_hash s chunk h n) = chunks s"
  by (simp add: set_chunk_hash_def)

lemma independentD:
  assumes "hash_inputs_independent cc env"
  shows "mainTemplate_updateHash env s = mainTemplate_updateHash env (erase_on (\<lambda>c. True) s)"
    and "chunkTemplate_updateHash env s = chunkTemplate_updateHash env (erase_on (\<lambda>c. True) s)"
    and "moduleTemplate_updateHash env s = moduleTemplate_updateHash env (erase_on (\<lambda>c. True) s)"
    and "chunk_updateHash env s = chunk_updateHash env (erase_on (\<lambda>c. True) s)"
    and "chunkTemplate_updateHashForChunk env s =
            chunkTemplate_updateHashForChunk env (erase_on (\<lambda>c. True) s)"
    and "mainTemplate_updateHashForChunk env s =
            mainTemplate_updateHashForChunk env (erase_on (hasRuntime cc) s)"
    and "chunk_hash_plugins env s c =
            chunk_hash_plugins env
              (erase_on (\<lambda>c'. hasRuntime cc c \<longrightarrow> hasRuntime cc c') s) c"
  using assms unfolding hash_inputs_independent_def by blast+

text \<open>The contributions to the hash of one chunk agree in two states that differ at most in
  the hashes of the chunks still to be hashed, when these come in sorted order.\<close>

lemma chunk_contribution_agree:
  fixes s t :: "('m, 'c) compilation"
  assumes ind: "hash_inputs_independent cc env"
    and agree: "erase_on (\<lambda>c. c \<in> set (chunk # rest)) s = erase_on (\<lambda>c. c \<in> set (chunk # rest)) t"
    and sorted: "sorted (map (runtime_key cc) (chunk # rest))"
  shows "fst (hash_chunk cc env chunk (acc, s)) = fst (hash_chunk cc env chunk (acc, t))"
proof -
  have all: "erase_on (\<lambda>c. True) s = erase_on (\<lambda>c. True) t"
    using agree by (rule erase_on_mono) simp
  have later: "hasRuntime cc chunk \<Longrightarrow> c \<in> set (chunk # rest) \<Longrightarrow> hasRuntime cc c" for c
    using sorted by (auto simp: runtime_key_def split: if_splits)
  have rt: "hasRuntime cc chunk \<Longrightarrow> erase_on (hasRuntime cc) s = erase_on (hasRuntime cc) t"
    using agree later by (rule erase_on_mono)
  have pl: "erase_on (\<lambda>c'. hasRuntime cc chunk \<longrightarrow> hasRuntime cc c') s =
            erase_on (\<lambda>c'. hasRuntime cc chunk \<longrightarrow> hasRuntime cc c') t"
    using agree by (rule erase_on_mono) (use later in blast)
  note d = independentD [OF ind]
  have 1: "chunk_updateHash env s = chunk_updateHash env t"
    using d(4) [of s] d(4) [of t] all by simp
  have 2: "chunkTemplate_updateHashForChunk env s = chunkTemplate_updateHashForChunk env t"
    using d(5) [of s] d(5) [of t] all by simp
  have 3: "hasRuntime cc chunk \<Longrightarrow>
      mainTemplate_updateHashForChunk env s = mainTemplate_updateHashForChunk env t"
    using d(6) [of s] d(6) [of t] rt by simp
  have 4: "chunk_hash_plugins env s chunk = chunk_hash_plugins env t chunk"
    using d(7) [of s chunk] d(7) [of t chunk] pl by simp
  show ?thesis
    by (simp add: hash_chunk_def Let_def 1 2 3 4)
qed

lemma hash_chunks_agree:
  fixes s t :: "('m, 'c) compilation"
  assumes ind: "hash_inputs_independent cc env"
    and agree: "erase_on (\<lambda>c. c \<in> set cs) s = erase_on (\<lambda>c. c \<in> set cs) t"
    and sorted: "sorted (map (runtime_key cc) cs)"
  shows "fst (fold (hash_chunk cc env) cs (acc, s)) = fst (fold (hash_chunk cc env) cs (acc, t))
       \<and> erase_on (\<lambda>c. False) (snd (fold (hash_chunk cc env) cs (acc, s))) =
         erase_on (\<lambda>c. False) (snd (fold (hash_chunk cc env) cs (acc, t)))"
  using agree sorted
proof (induction cs arbitrary: acc s t)
  case Nil
  then show ?case by simp
next
  case (Cons chunk rest)
  from chunk_contribution_agree [OF ind Cons.prems(1) Cons.prems(2), of acc]
  have f: "fst (hash_chunk cc env chunk (acc, s)) = fst (hash_chunk cc env chunk (acc, t))" .
  obtain h where hs: "hash_chunk cc env chunk (acc, s) =
        (acc @ h, set_chunk_hash s chunk h (hashDigestLength env))"
    by (simp add: hash_chunk_def Let_def)
  obtain h' where ht: "hash_chunk cc env chunk (acc, t) =
        (acc @ h', set_chunk_hash t chunk h' (hashDigestLength env))"
    by (simp add: hash_chunk_def Let_def)
  from f hs ht have hh: "h' = h" by simp
  have agree': "erase_on (\<lambda>c. c \<in> set rest) (set_chunk_hash s chunk h (hashDigestLength env)) =
      erase_on (\<lambda>c. c \<in> set rest) (set_chunk_hash t chunk h (hashDigestLength env))"
    unfolding set_chunk_hash_erase using Cons.prems(1) by simp
  have sorted': "sorted (map (runtime_key cc) rest)"
    using Cons.prems(2) by simp
  from Cons.IH [OF agree' sorted', of "acc @ h"] show ?case
    by (simp add: hs ht hh)
qed

lemma hash_chunk_keeps:
  fixes s :: "('m, 'c) compilation"
  shows "erase_on (\<lambda>c. c \<in> X) (snd (hash_chunk cc env chunk (acc, s))) = 
         (if chunk \<in> X then erase_on (\<lambda>c. c \<in> X) s else 
            set_chunk_hash (erase_on (\<lambda>c. c \<in> X) s) chunk (digest env
              (salt env @ chunk_updateHash env s chunk
            @ (if hasRuntime cc chunk then mainTemplate_updateHashForChunk env s chunk
               else chunkTemplate_updateHashForChunk env s)
            @ chunk_hash_plugins env s chunk)) (hashDigestLength env))"
  by (auto simp: hash_chunk_def Let_def erase_on_def set_chunk_hash_def fun_eq_iff)

lemma hash_chunks_keeps:
  fixes s :: "('m, 'c) compilation"
  assumes "set cs \<subseteq> X"
  shows "erase_on (\<lambda>c. c \<in> X) (snd (fold (hash_chunk cc env) cs (acc, s))) = erase_on (\<lambda>c. c \<in> X) s"
  using assms
proof (induction cs arbitrary: acc s)
  case Nil
  then show ?case by simp
next
  case (Cons chunk rest)
  obtain acc' s' where st: "hash_chunk cc env chunk (acc, s) = (acc', s')"
    by (metis prod.collapse)
  have "erase_on (\<lambda>c. c \<in> X) s' = erase_on (\<lambda>c. c \<in> X) s"
    using hash_chunk_keeps [of X cc env chunk acc s] Cons.prems by (simp add: st)
  moreover have "erase_on (\<lambda>c. c \<in> X) (snd (fold (hash_chunk cc env) rest (acc', s'))) =
      erase_on (\<lambda>c. c \<in> X) s'"
    using Cons.IH [of acc' s'] Cons.prems by simp
  ultimately show ?case by (simp add: st)
qed

lemma erase_none_update:
  fixes x :: "('m, 'c) compilation"
  shows "(erase_on (\<lambda>c. False) x)\<lparr>fullHash := a, hash := b\<rparr> = x\<lparr>fullHash := a, hash := b\<rparr>"
  by (simp add: erase_on_def)

lemma erase_on_update:
  fixes x :: "('m, 'c) compilation"
  shows "erase_on P (x\<lparr>fullHash := a, hash := b\<rparr>) = erase_on P x"
  by (simp add: erase_on_def cong: if_cong)

lemma createHash_agree:
  fixes s t :: "('m, 'c) compilation"
  assumes ind: "hash_inputs_independent cc env"
    and agree: "erase_on (\<lambda>c. c \<in> set (chunks s)) s = erase_on (\<lambda>c. c \<in> set (chunks s)) t"
  shows "createHash cc env s = createHash cc env t"
proof -
  have ch: "chunks t = chunks s" and kids: "children t = children s"
    using erase_on_eq_fields [OF agree] by simp_all
  have all: "erase_on (\<lambda>c. True) s = erase_on (\<lambda>c. True) t"
    using agree by (rule erase_on_mono) simp
  note d = independentD [OF ind]
  have h0: "mainTemplate_updateHash env s = mainTemplate_updateHash env t"
    "chunkTemplate_updateHash env s = chunkTemplate_updateHash env t"
    "moduleTemplate_updateHash env s = moduleTemplate_updateHash env t"
    using d(1) [of s] d(1) [of t] d(2) [of s] d(2) [of t] d(3) [of s] d(3) [of t] all
    by simp_all
  let ?cs = "sort_key (runtime_key cc) (chunks s)"
  let ?h0 = "salt env @ mainTemplate_updateHash env s @ chunkTemplate_updateHash env s
                  @ moduleTemplate_updateHash env s @ concat (children s)"
  let ?x = "fold (hash_chunk cc env) ?cs (?h0, s)"
  let ?y = "fold (hash_chunk cc env) ?cs (?h0, t)"
  have agree': "erase_on (\<lambda>c. c \<in> set ?cs) s = erase_on (\<lambda>c. c \<in> set ?cs) t"
    using agree by simp
  have sorted: "sorted (map (runtime_key cc) ?cs)"
    by (rule sorted_sort_key)
  from hash_chunks_agree [OF ind agree' sorted, of ?h0]
  have acc: "fst ?x = fst ?y"
    and st: "erase_on (\<lambda>c. False) (snd ?x) = erase_on (\<lambda>c. False) (snd ?y)"
    by blast+
  have fin: "(snd ?x)\<lparr>fullHash := a, hash := b\<rparr> = (snd ?y)\<lparr>fullHash := a, hash := b\<rparr>" for a b
    using erase_none_update [where x = "snd ?x" and a = a and b = b]
      erase_none_update [where x = "snd ?y" and a = a and b = b] st by simp
  have l: "createHash cc env s =
      (snd ?x)\<lparr>fullHash := Some (digest env (fst ?x)),
               hash := Some (take (hashDigestLength env) (digest env (fst ?x)))\<rparr>"
    by (simp add: createHash_def Let_def)
  have r: "createHash cc env t =
      (snd ?y)\<lparr>fullHash := Some (digest env (fst ?y)),
               hash := Some (take (hashDigestLength env) (digest env (fst ?y)))\<rparr>"
    by (simp add: createHash_def Let_def ch kids h0)
  show ?thesis unfolding l r acc by (rule fin)
qed

lemma createHash_keeps:
  fixes s :: "('m, 'c) compilation"
  shows "erase_on (\<lambda>c. c \<in> set (chunks s)) (createHash cc env s) = erase_on (\<lambda>c. c \<in> set (chunks s)) s"
proof -
  have "set (sort_key (runtime_key cc) (chunks s)) \<subseteq> set (chunks s)" by simp
  from hash_chunks_keeps [OF this]
  show ?thesis
    by (simp add: createHash_def Let_def erase_on_update)
qed

lemma createHash_chunks [simp]:
  "chunks (createHash cc env s) = chunks s"
  using erase_on_eq_fields(1) [OF createHash_keeps [of s cc env]] .

text \<open>
  C9. When what the templates, \<open>chunk.updateHash\<close> and the handlers of \<open>chunk-hash\<close> feed
  into a hash is independent of stale hashes, \<open>createHash\<close> run a second time leaves the
  compilation as the first run left it: the same \<open>fullHash\<close> and \<open>hash\<close>, and the same
  \<open>hash\<close> and \<open>renderedHash\<close> of every chunk. More generally two compilations that
  differ at most in these fields get the same result.
\<close>

theorem createHash_idempotent:
  fixes s s' :: "('m, 'c) compilation"
  assumes "hash_inputs_independent cc env"
  shows "createHash cc env (createHash cc env s) = createHash cc env s
       \<and> (erase_on (\<lambda>c. c \<in> set (chunks s)) s' = erase_on (\<lambda>c. c \<in> set (chunks s)) s
            \<longrightarrow> createHash cc env s' = createHash cc env s)"
proof -
  have "erase_on (\<lambda>c. c \<in> set (chunks (createHash cc env s))) (createHash cc env s) =
        erase_on (\<lambda>c. c \<in> set (chunks (createHash cc env s))) s"
    using createHash_keeps [of s cc env] by simp
  from createHash_agree [OF assms this]
  have 1: "createHash cc env (createHash cc env s) = createHash cc env s" .
  have 2: "createHash cc env s' = createHash cc env s"
    if "erase_on (\<lambda>c. c \<in> set (chunks s)) s' = erase_on (\<lambda>c. c \<in> set (chunks s)) s"
    using createHash_agree [OF assms that [symmetric]] by simp
  from 1 2 show ?thesis by blast
qed

text \<open>Two chunks: 5 carries the runtime, 6 does not. The runtime chunk's template feeds
  the hashes of the chunks without runtime into its hash.\<close>

definition runtime_chunk_class :: "nat chunk_class" where
  "runtime_chunk_class = \<lparr>hasRuntime = (\<lambda>c. c = 5), isInitial = (\<lambda>c. c = 5)\<rparr>"

definition demo_hasher :: "(nat, nat) hasher" where
  "demo_hasher =
     \<lparr>hashSalt = Some ''s'', hashDigestLength = 2, digest = (\<lambda>x. rev x @ ''#''),
      mainTemplate_updateHash = (\<lambda>s. ''M''),
      chunkTemplate_updateHash = (\<lambda>s. ''C''),
      moduleTemplate_updateHash = (\<lambda>s. ''m''),
      chunk_updateHash = (\<lambda>s c. if c = 5 then ''five'' else ''six''),
      mainTemplate_updateHashForChunk = (\<lambda>s c.
         concat (map (\<lambda>c'. case c_hash (chunk_heap s c') of None \<Rightarrow> ''?'' | Some h \<Rightarrow> h)
                     (filter (\<lambda>c'. c' \<noteq> 5) (chunks s)))),
      chunkTemplate_updateHashForChunk = (\<lambda>s. ''t''),
      chunk_hash_plugins = (\<lambda>s c. [])\<rparr>"

definition two_chunks :: "(nat, nat) compilation" where
  "two_chunks = demo_compilation\<lparr>chunks := [5, 6]\<rparr>"

lemma demo_hasher_independent:
  "hash_inputs_independent runtime_chunk_class demo_hasher"
proof -
  have "map (\<lambda>c'. case c_hash (chunk_heap s c') of None \<Rightarrow> ''?'' | Some h \<Rightarrow> h)
            (filter (\<lambda>c'. c' \<noteq> 5) (chunks s)) =
        map (\<lambda>c'. case c_hash (chunk_heap (erase_on (\<lambda>c. c = 5) s) c') of
                     None \<Rightarrow> ''?'' | Some h \<Rightarrow> h)
            (filter (\<lambda>c'. c' \<noteq> 5) (chunks (erase_on (\<lambda>c. c = 5) s)))"
    for s :: "(nat, nat) compilation"
    by (rule map_cong) (simp_all add: erase_on_def)
  then show ?thesis
    by (simp add: hash_inputs_independent_def demo_hasher_def runtime_chunk_class_def)
qed

theorem createHash_idempotent_witness:
  "hash_inputs_independent runtime_chunk_class demo_hasher
   \<and> createHash runtime_chunk_class demo_hasher
        (createHash runtime_chunk_class demo_hasher two_chunks)
       = createHash runtime_chunk_class demo_hasher two_chunks
   \<and> c_hash (chunk_heap (createHash runtime_chunk_class demo_hasher two_chunks) 6) = Some ''txiss#''
   \<and> c_hash (chunk_heap (createHash runtime_chunk_class demo_hasher two_chunks) 5)
       = Some ''#ssixtevifs#''
   \<and> hash (createHash runtime_chunk_class demo_hasher two_chunks) = Some ''#s''"
proof -
  have vals: "c_hash (chunk_heap (createHash runtime_chunk_class demo_hasher two_chunks) 6)
        = Some ''txiss#''
     \<and> c_hash (chunk_heap (createHash runtime_chunk_class demo_hasher two_chunks) 5)
        = Some ''#ssixtevifs#''
     \<and> hash (createHash runtime_chunk_class demo_hasher two_chunks) = Some ''#s''"
    by (simp add: createHash_def hash_chunk_def set_chunk_hash_def salt_def runtime_key_def
        two_chunks_def demo_compilation_def new_compilation_def demo_hasher_def
        runtime_chunk_class_def demo_chunk_def Let_def)
  from createHash_idempotent [OF demo_hasher_independent, of two_chunks] vals
    demo_hasher_independent
  show ?thesis by blast
qed

text \<open>
  A handler of \<open>chunk-hash\<close> that feeds the hash the chunk has when it is called,
  \<open>chunkHash.update(chunk.hash || "")\<close>. The second run of \<open>createHash\<close> on the same
  chunks, templates, children and options then gives chunk 6 another hash than the first
  run, and the compilation another \<open>fullHash\<close>.
\<close>

definition stale_hasher :: "(nat, nat) hasher" where
  "stale_hasher =
     demo_hasher\<lparr>chunk_hash_plugins :=
       (\<lambda>s c. case c_hash (chunk_heap s c) of None \<Rightarrow> [] | Some h \<Rightarrow> h)\<rparr>"

theorem createHash_rehash_differs:
  "c_hash (chunk_heap (createHash runtime_chunk_class stale_hasher two_chunks) 6)
     = Some ''txiss#''
   \<and> c_hash (chunk_heap (createHash runtime_chunk_class stale_hasher
        (createHash runtime_chunk_class stale_hasher two_chunks)) 6)
     = Some ''#ssixttxiss#''
   \<and> fullHash (createHash runtime_chunk_class stale_hasher
        (createHash runtime_chunk_class stale_hasher two_chunks))
     \<noteq> fullHash (createHash runtime_chunk_class stale_hasher two_chunks)"
  by (simp add: createHash_def hash_chunk_def set_chunk_hash_def salt_def runtime_key_def
      two_chunks_def demo_compilation_def new_compilation_def demo_hasher_def stale_hasher_def
      runtime_chunk_class_def demo_chunk_def Let_def)

section \<open>The indexer: \<open>assignIndex\<close>, \<open>assignDepth\<close> and the loop of \<open>seal\<close>\<close>

text \<open>
  The two methods read the dependency blocks of the modules, which they do not change,
  and write three fields of module objects and two counters of the compilation. The
  blocks are the function \<open>g\<close> from a module to its block; the fields are maps from
  modules to numbers, \<open>None\<close> where the field is not a number. The modules are the
  objects of a heap, finitely many. Both methods keep an array \<open>queue\<close> of closures and
  run \<open>queue.pop()()\<close> until it is empty: the model keeps the queue as a list with the
  top first, so that pushing \<open>x\<close> and then \<open>y\<close> gives \<open>y # x # queue\<close>.
\<close>

definition all_dependencies :: "('m, 'c) block \<Rightarrow> 'm dependency list" where
  "all_dependencies block = concat (b_variables block) @ b_dependencies block"

text \<open>\<open>assignDepthToDependency\<close> pushes a closure for a dependency that has a module.\<close>

fun dependency_modules :: "'m dependency list \<Rightarrow> 'm list" where
  "dependency_modules [] = []"
| "dependency_modules (d # ds) =
     (case d_module d of
        None \<Rightarrow> dependency_modules ds
      | Some m \<Rightarrow> m # dependency_modules ds)"

text \<open>
  \<open>assignDepthToDependencyBlock\<close> (lines 789--809) walks the dependencies of the
  variables, then the block's own, then the nested blocks at once, with the same depth:
  the modules for which it pushes a closure, in the order of the pushes.
\<close>

fun depth_targets :: "('m, 'c) block \<Rightarrow> 'm list" where
  "depth_targets (Block vs ds bs cs) =
     dependency_modules (concat vs @ ds) @ concat (map depth_targets bs)"

text \<open>
  The closures of \<open>assignDepth\<close> are calls \<open>assignDepthToModule(module, depth)\<close>, here
  pairs. Lines 774--781 and the loop at lines 814--816.
\<close>

function assignDepth_loop ::
  "('m::finite \<Rightarrow> ('m, 'c) block) \<Rightarrow> ('m \<rightharpoonup> nat) \<Rightarrow> ('m \<times> nat) list \<Rightarrow> ('m \<rightharpoonup> nat)" where
  "assignDepth_loop g depth [] = depth"
| "assignDepth_loop g depth ((module, d) # queue) =
     (if (case depth module of None \<Rightarrow> False | Some d' \<Rightarrow> d' \<le> d)
      then assignDepth_loop g depth queue
      else assignDepth_loop g (depth(module \<mapsto> d))
             (rev (map (\<lambda>t. (t, Suc d)) (depth_targets (g module))) @ queue))"
  by pat_completeness auto

text \<open>Termination: a round either sets a depth that was unset, or lowers one, or only
  shortens the queue.\<close>

definition unset_count :: "('m::finite \<rightharpoonup> nat) \<Rightarrow> nat" where
  "unset_count f = card {m. f m = None}"

definition depth_sum :: "('m::finite \<rightharpoonup> nat) \<Rightarrow> nat" where
  "depth_sum f = (\<Sum>m\<in>UNIV. case f m of None \<Rightarrow> 0 | Some d \<Rightarrow> d)"

lemma unset_count_set:
  fixes f :: "'m::finite \<rightharpoonup> nat"
  assumes "f m = None"
  shows "unset_count (f(m \<mapsto> d)) < unset_count f"
proof -
  have "{x. (f(m \<mapsto> d)) x = None} = {x. f x = None} - {m}" by auto
  moreover have "card ({x. f x = None} - {m}) < card {x. f x = None}"
    by (rule card_Diff1_less) (simp_all add: assms)
  ultimately show ?thesis
    unfolding unset_count_def by simp
qed

lemma unset_count_lower:
  fixes f :: "'m::finite \<rightharpoonup> nat"
  assumes "f m = Some d'"
  shows "unset_count (f(m \<mapsto> d)) = unset_count f"
proof -
  have "{x. (f(m \<mapsto> d)) x = None} = {x. f x = None}" using assms by auto
  then show ?thesis unfolding unset_count_def by simp
qed

lemma depth_sum_lower:
  fixes f :: "'m::finite \<rightharpoonup> nat"
  assumes "f m = Some d'" and "d < d'"
  shows "depth_sum (f(m \<mapsto> d)) < depth_sum f"
proof -
  let ?v = "\<lambda>h x. case h x of None \<Rightarrow> 0 | Some (d::nat) \<Rightarrow> d"
  have split: "(\<Sum>x\<in>UNIV. ?v h x) = ?v h m + (\<Sum>x\<in>UNIV - {m}. ?v h x)" for h :: "'m \<rightharpoonup> nat"
    by (simp add: sum.remove [of UNIV m])
  have "(\<Sum>x\<in>UNIV - {m}. ?v (f(m \<mapsto> d)) x) = (\<Sum>x\<in>UNIV - {m}. ?v f x)"
    by (rule sum.cong) auto
  then show ?thesis
    unfolding depth_sum_def split [of f] split [of "f(m \<mapsto> d)"] using assms by simp
qed

termination assignDepth_loop
proof (relation "inv_image (less_than <*lex*> less_than <*lex*> less_than)
    (\<lambda>(g, depth, queue). (unset_count depth, depth_sum depth, length queue))", goal_cases)
  case 1
  show ?case by (intro wf_inv_image wf_lex_prod wf_less_than)
next
  case (2 g depth module d queue)
  then show ?case by simp
next
  case (3 g depth module d queue)
  show ?case
  proof (cases "depth module")
    case None
    then show ?thesis by (simp add: unset_count_set)
  next
    case (Some d')
    with 3 have "d < d'" by simp
    with Some show ?thesis by (simp add: unset_count_lower depth_sum_lower)
  qed
qed


text \<open>
  The state of the indexer. The last two fields record the assignments
  \<open>module.index = ...\<close> and \<open>module.index2 = ...\<close> as they happen, in order.
\<close>

record 'm indexing =
  m_index :: "'m \<rightharpoonup> nat"
  m_index2 :: "'m \<rightharpoonup> nat"
  m_depth :: "'m \<rightharpoonup> nat"
  nextFreeModuleIndex :: nat
  nextFreeModuleIndex2 :: nat
  index_assigned :: "('m \<times> nat) list"
  index2_assigned :: "('m \<times> nat) list"

definition assignDepth ::
  "('m::finite \<Rightarrow> ('m, 'c) block) \<Rightarrow> 'm indexing \<Rightarrow> 'm \<Rightarrow> 'm indexing" where
  "assignDepth g st module = st\<lparr>m_depth := assignDepth_loop g (m_depth st) [(module, 0)]\<rparr>"

subsection \<open>Dependency hops\<close>

text \<open>
  A module imports another when a dependency anywhere in its block, in a variable, in
  the block itself or in a nested block, has that module. \<open>hops g k a b\<close>: there are
  \<open>k\<close> such steps from \<open>a\<close> to \<open>b\<close>.
\<close>

fun imports_module :: "('m, 'c) block \<Rightarrow> 'm \<Rightarrow> bool" where
  "imports_module (Block vs ds bs cs) t \<longleftrightarrow>
     (\<exists>v \<in> set vs. \<exists>d \<in> set v. d_module d = Some t)
     \<or> (\<exists>d \<in> set ds. d_module d = Some t)
     \<or> (\<exists>b \<in> set bs. imports_module b t)"

fun hops :: "('m \<Rightarrow> ('m, 'c) block) \<Rightarrow> nat \<Rightarrow> 'm \<Rightarrow> 'm \<Rightarrow> bool" where
  "hops g 0 a b \<longleftrightarrow> a = b"
| "hops g (Suc k) a b \<longleftrightarrow> (\<exists>t. imports_module (g a) t \<and> hops g k t b)"

lemma set_dependency_modules:
  "t \<in> set (dependency_modules ds) \<longleftrightarrow> (\<exists>d \<in> set ds. d_module d = Some t)"
  by (induction ds) (auto split: option.splits)

lemma depth_targets_imports:
  "t \<in> set (depth_targets b) \<longleftrightarrow> imports_module b t"
  by (induction b) (auto simp: set_dependency_modules)

lemma hops_snoc:
  "hops g k a m \<Longrightarrow> imports_module (g m) t \<Longrightarrow> hops g (Suc k) a t"
proof (induction k arbitrary: a)
  case 0
  then show ?case by auto
next
  case (Suc k)
  from Suc.prems(1) obtain x where x: "imports_module (g a) x" "hops g k x m" by auto
  from Suc.IH [OF x(2) Suc.prems(2)] x(1) show ?case by auto
qed

subsection \<open>The invariant of \<open>assignDepth\<close>\<close>

text \<open>
  For the entry modules \<open>R\<close> seen so far: a depth that is set, or queued, is the length
  of some path from an entry; an entry has depth 0 or is queued with 0; and along every
  import of a module with a depth, the target has a depth at most one more, or is
  queued with one.
\<close>

definition depth_inv ::
  "('m \<Rightarrow> ('m, 'c) block) \<Rightarrow> 'm set \<Rightarrow> ('m \<rightharpoonup> nat) \<Rightarrow> ('m \<times> nat) list \<Rightarrow> bool" where
  "depth_inv g R depth q \<longleftrightarrow>
     (\<forall>m d. depth m = Some d \<longrightarrow> (\<exists>e \<in> R. hops g d e m))
   \<and> (\<forall>m d. (m, d) \<in> set q \<longrightarrow> (\<exists>e \<in> R. hops g d e m))
   \<and> (\<forall>e \<in> R. depth e = Some 0 \<or> (e, 0) \<in> set q)
   \<and> (\<forall>m d t. depth m = Some d \<longrightarrow> imports_module (g m) t \<longrightarrow>
         (\<exists>d'. d' \<le> Suc d \<and> (depth t = Some d' \<or> (t, d') \<in> set q)))"

lemma depth_inv_set:
  "depth_inv g R depth q \<Longrightarrow> depth m = Some d \<Longrightarrow> \<exists>e \<in> R. hops g d e m"
  unfolding depth_inv_def by blast

lemma depth_inv_queued:
  "depth_inv g R depth q \<Longrightarrow> (m, d) \<in> set q \<Longrightarrow> \<exists>e \<in> R. hops g d e m"
  unfolding depth_inv_def by blast

lemma depth_inv_root:
  "depth_inv g R depth q \<Longrightarrow> e \<in> R \<Longrightarrow> depth e = Some 0 \<or> (e, 0) \<in> set q"
  unfolding depth_inv_def by blast

lemma depth_inv_edge:
  "depth_inv g R depth q \<Longrightarrow> depth m = Some d \<Longrightarrow> imports_module (g m) t \<Longrightarrow>
   \<exists>d'. d' \<le> Suc d \<and> (depth t = Some d' \<or> (t, d') \<in> set q)"
  unfolding depth_inv_def by blast

lemma depth_invI:
  assumes "\<And>m d. depth m = Some d \<Longrightarrow> \<exists>e \<in> R. hops g d e m"
    and "\<And>m d. (m, d) \<in> set q \<Longrightarrow> \<exists>e \<in> R. hops g d e m"
    and "\<And>e. e \<in> R \<Longrightarrow> depth e = Some 0 \<or> (e, 0) \<in> set q"
    and "\<And>m d t. depth m = Some d \<Longrightarrow> imports_module (g m) t \<Longrightarrow>
           \<exists>d'. d' \<le> Suc d \<and> (depth t = Some d' \<or> (t, d') \<in> set q)"
  shows "depth_inv g R depth q"
  unfolding depth_inv_def using assms by blast

lemma depth_inv_skip:
  assumes inv: "depth_inv g R depth ((m, d) # q)" and set: "depth m = Some d'" and le: "d' \<le> d"
  shows "depth_inv g R depth q"
proof (rule depth_invI)
  fix x dx assume "depth x = Some dx"
  then show "\<exists>e \<in> R. hops g dx e x" by (rule depth_inv_set [OF inv])
next
  fix x dx assume "(x, dx) \<in> set q"
  then have "(x, dx) \<in> set ((m, d) # q)" by simp
  then show "\<exists>e \<in> R. hops g dx e x" by (rule depth_inv_queued [OF inv])
next
  fix e assume "e \<in> R"
  then have "depth e = Some 0 \<or> (e, 0) \<in> set ((m, d) # q)"
    by (rule depth_inv_root [OF inv])
  then show "depth e = Some 0 \<or> (e, 0) \<in> set q"
    using set le by auto
next
  fix x dx t assume "depth x = Some dx" "imports_module (g x) t"
  from depth_inv_edge [OF inv this] obtain d'' where d'': "d'' \<le> Suc dx"
      "depth t = Some d'' \<or> (t, d'') \<in> set ((m, d) # q)"
    by blast
  show "\<exists>d'. d' \<le> Suc dx \<and> (depth t = Some d' \<or> (t, d') \<in> set q)"
  proof (cases "(t, d'') = (m, d)")
    case True
    then have "depth t = Some d'" "d' \<le> Suc dx" using set le d''(1) by auto
    then show ?thesis by blast
  next
    case False
    then have "depth t = Some d'' \<or> (t, d'') \<in> set q" using d''(2) by auto
    with d''(1) show ?thesis by blast
  qed
qed

lemma depth_inv_update:
  assumes inv: "depth_inv g R depth ((m, d) # q)"
    and upd: "\<not> (case depth m of None \<Rightarrow> False | Some d' \<Rightarrow> d' \<le> d)"
  shows "depth_inv g R (depth(m \<mapsto> d)) (rev (map (\<lambda>t. (t, Suc d)) (depth_targets (g m))) @ q)"
    (is "depth_inv g R ?depth ?q")
proof (rule depth_invI)
  have here: "\<exists>e \<in> R. hops g d e m"
    by (rule depth_inv_queued [OF inv]) simp
  have pushed: "(t, Suc d) \<in> set ?q" if "imports_module (g m) t" for t
    using that by (simp add: depth_targets_imports image_iff)
  have kept: "p \<in> set ?q" if "p \<in> set q" for p
    using that by simp
  have split: "(dx = Suc d \<and> imports_module (g m) x) \<or> (x, dx) \<in> set q"
    if "(x, dx) \<in> set ?q" for x dx
    using that by (auto simp: depth_targets_imports)
  {
    fix x dx assume x: "?depth x = Some dx"
    show "\<exists>e \<in> R. hops g dx e x"
    proof (cases "x = m")
      case True
      with x have "dx = d" by simp
      with here True show ?thesis by simp
    next
      case False
      with x have "depth x = Some dx" by simp
      then show ?thesis by (rule depth_inv_set [OF inv])
    qed
  next
    fix x dx assume "(x, dx) \<in> set ?q"
    from split [OF this] show "\<exists>e \<in> R. hops g dx e x"
    proof
      assume a: "dx = Suc d \<and> imports_module (g m) x"
      from here obtain e where e: "e \<in> R" "hops g d e m" by blast
      from hops_snoc [OF e(2)] a have "hops g dx e x" by simp
      with e(1) show ?thesis by blast
    next
      assume "(x, dx) \<in> set q"
      then have "(x, dx) \<in> set ((m, d) # q)" by simp
      then show ?thesis by (rule depth_inv_queued [OF inv])
    qed
  next
    fix e assume "e \<in> R"
    then have "depth e = Some 0 \<or> (e, 0) \<in> set ((m, d) # q)"
      by (rule depth_inv_root [OF inv])
    then consider "depth e = Some 0" "e \<noteq> m" | "depth e = Some 0" "e = m"
      | "(e, 0) = (m, d)" | "(e, 0) \<in> set q"
      by auto
    then show "?depth e = Some 0 \<or> (e, 0) \<in> set ?q"
    proof cases
      case 1
      then show ?thesis by simp
    next
      case 2
      with upd show ?thesis by simp
    next
      case 3
      then show ?thesis by simp
    next
      case 4
      from kept [OF this] show ?thesis by blast
    qed
  next
    fix x dx t assume x: "?depth x = Some dx" and imp: "imports_module (g x) t"
    show "\<exists>d'. d' \<le> Suc dx \<and> (?depth t = Some d' \<or> (t, d') \<in> set ?q)"
    proof (cases "x = m")
      case True
      then have "dx = d" using x by simp
      moreover have "(t, Suc d) \<in> set ?q"
        using imp True pushed by simp
      ultimately show ?thesis by blast
    next
      case False
      then have "depth x = Some dx" using x by simp
      from depth_inv_edge [OF inv this imp] obtain d'' where d'': "d'' \<le> Suc dx"
          "depth t = Some d'' \<or> (t, d'') \<in> set ((m, d) # q)"
        by blast
      from d''(2) consider "depth t = Some d''" | "(t, d'') = (m, d)" | "(t, d'') \<in> set q"
        by auto
      then show ?thesis
      proof cases
        case 1
        show ?thesis
        proof (cases "t = m")
          case True
          with 1 upd have "d < d''" by simp
          with d''(1) have "d \<le> Suc dx" by simp
          moreover have "?depth t = Some d" using True by simp
          ultimately show ?thesis by blast
        next
          case False
          with 1 have "?depth t = Some d''" by simp
          with d''(1) show ?thesis by blast
        qed
      next
        case 2
        then have "?depth t = Some d" "d \<le> Suc dx" using d''(1) by simp_all
        then show ?thesis by blast
      next
        case 3
        from kept [OF this] d''(1) show ?thesis by blast
      qed
    qed
  }
qed

lemma assignDepth_loop_inv:
  "depth_inv g R depth q \<Longrightarrow> depth_inv g R (assignDepth_loop g depth q) []"
proof (induction g depth q rule: assignDepth_loop.induct)
  case (1 g depth)
  then show ?case by simp
next
  case (2 g depth module d queue)
  show ?case
  proof (cases "case depth module of None \<Rightarrow> False | Some d' \<Rightarrow> d' \<le> d")
    case True
    then obtain d' where "depth module = Some d'" "d' \<le> d"
      by (auto split: option.splits)
    from depth_inv_skip [OF "2.prems" this]
    have "depth_inv g R (assignDepth_loop g depth queue) []"
      by (rule "2.IH"(1) [OF True])
    then show ?thesis using True by simp
  next
    case False
    from depth_inv_update [OF "2.prems" False]
    have "depth_inv g R (assignDepth_loop g (depth(module \<mapsto> d))
        (rev (map (\<lambda>t. (t, Suc d)) (depth_targets (g module))) @ queue)) []"
      by (rule "2.IH"(2) [OF False])
    then show ?thesis using False by (simp del: fun_upd_apply)
  qed
qed


lemma depth_inv_entry:
  assumes "depth_inv g R depth []"
  shows "depth_inv g (insert e R) depth [(e, 0)]"
proof (rule depth_invI)
  fix m d assume "depth m = Some d"
  from depth_inv_set [OF assms this] show "\<exists>e' \<in> insert e R. hops g d e' m" by blast
next
  fix m and d :: nat assume "(m, d) \<in> set [(e, 0)]"
  then have "hops g d e m" by simp
  then show "\<exists>e' \<in> insert e R. hops g d e' m" by blast
next
  fix e' assume "e' \<in> insert e R"
  then show "depth e' = Some 0 \<or> (e', 0) \<in> set [(e, 0)]"
    using depth_inv_root [OF assms, of e'] by auto
next
  fix m d t assume "depth m = Some d" "imports_module (g m) t"
  from depth_inv_edge [OF assms this]
  show "\<exists>d'. d' \<le> Suc d \<and> (depth t = Some d' \<or> (t, d') \<in> set [(e, 0)])" by auto
qed

lemma assignDepth_loop_entry:
  "depth_inv g R depth [] \<Longrightarrow> depth_inv g (insert e R) (assignDepth_loop g depth [(e, 0)]) []"
  by (rule assignDepth_loop_inv) (rule depth_inv_entry)

lemma depth_inv_empty: "depth_inv g {} Map.empty []"
  by (rule depth_invI) simp_all

lemma closed_reaches:
  assumes inv: "depth_inv g R depth []"
  shows "depth a = Some da \<Longrightarrow> hops g k a b \<Longrightarrow> \<exists>d. d \<le> da + k \<and> depth b = Some d"
proof (induction k arbitrary: a da)
  case 0
  then show ?case by simp
next
  case (Suc k)
  from Suc.prems(2) obtain t where t: "imports_module (g a) t" "hops g k t b" by auto
  from depth_inv_edge [OF inv Suc.prems(1) t(1)] obtain dt
    where dt: "dt \<le> Suc da" "depth t = Some dt" by auto
  from Suc.IH [OF dt(2) t(2)] obtain d where "d \<le> dt + k" "depth b = Some d" by blast
  with dt(1) have "d \<le> da + Suc k \<and> depth b = Some d" by simp
  then show ?case by blast
qed

lemma closed_minimal:
  assumes inv: "depth_inv g R depth []"
  shows "depth m = Some d \<longleftrightarrow>
     (\<exists>e \<in> R. hops g d e m) \<and> (\<forall>k < d. \<forall>e \<in> R. \<not> hops g k e m)"
proof
  assume set: "depth m = Some d"
  have "\<not> hops g k e m" if "k < d" "e \<in> R" for k e
  proof
    assume "hops g k e m"
    moreover have "depth e = Some 0" using depth_inv_root [OF inv that(2)] by simp
    ultimately obtain d' where "d' \<le> 0 + k" "depth m = Some d'"
      using closed_reaches [OF inv] by blast
    with set that(1) show False by simp
  qed
  with depth_inv_set [OF inv set] show
    "(\<exists>e \<in> R. hops g d e m) \<and> (\<forall>k < d. \<forall>e \<in> R. \<not> hops g k e m)" by blast
next
  assume r: "(\<exists>e \<in> R. hops g d e m) \<and> (\<forall>k < d. \<forall>e \<in> R. \<not> hops g k e m)"
  then obtain e where e: "e \<in> R" "hops g d e m" by blast
  have "depth e = Some 0" using depth_inv_root [OF inv e(1)] by simp
  from closed_reaches [OF inv this e(2)] obtain d' where d': "d' \<le> d" "depth m = Some d'"
    by auto
  from depth_inv_set [OF inv d'(2)] obtain e' where "e' \<in> R" "hops g d' e' m" by blast
  with r have "\<not> d' < d" by blast
  with d' show "depth m = Some d" by simp
qed


subsection \<open>\<open>assignIndex\<close>\<close>

text \<open>
  The closures of \<open>assignIndex\<close> (lines 706--771): \<open>assignIndexToModule(module)\<close>, the
  assignment of \<open>index2\<close> on leaving a module, \<open>assignIndexToDependency(d)\<close> and
  \<open>assignIndexToDependencyBlock(b)\<close>. A block pushes its nested blocks from the last to
  the first and then its dependencies from the last to the first, the variables' before
  its own: on the stack the dependencies come first, in order, then the blocks.
\<close>

datatype ('m, 'c) index_task =
    EnterModule 'm
  | LeaveModule 'm
  | VisitDependency "'m dependency"
  | VisitBlock "('m, 'c) block"

definition block_tasks :: "('m, 'c) block \<Rightarrow> ('m, 'c) index_task list" where
  "block_tasks block =
     map VisitDependency (all_dependencies block) @ map VisitBlock (b_blocks block)"

definition assign_index :: "'m indexing \<Rightarrow> 'm \<Rightarrow> 'm indexing" where
  "assign_index st module =
     st\<lparr>m_index := (m_index st)(module \<mapsto> nextFreeModuleIndex st),
        nextFreeModuleIndex := Suc (nextFreeModuleIndex st),
        index_assigned := index_assigned st @ [(module, nextFreeModuleIndex st)]\<rparr>"

definition assign_index2 :: "'m indexing \<Rightarrow> 'm \<Rightarrow> 'm indexing" where
  "assign_index2 st module =
     st\<lparr>m_index2 := (m_index2 st)(module \<mapsto> nextFreeModuleIndex2 st),
        nextFreeModuleIndex2 := Suc (nextFreeModuleIndex2 st),
        index2_assigned := index2_assigned st @ [(module, nextFreeModuleIndex2 st)]\<rparr>"

fun run_task ::
  "('m \<Rightarrow> ('m, 'c) block) \<Rightarrow> ('m, 'c) index_task \<Rightarrow> 'm indexing \<Rightarrow> ('m, 'c) index_task list
   \<Rightarrow> 'm indexing \<times> ('m, 'c) index_task list" where
  "run_task g (EnterModule module) st queue =
     (case m_index st module of
        Some i \<Rightarrow> (st, queue)
      | None \<Rightarrow> (assign_index st module, block_tasks (g module) @ LeaveModule module # queue))"
| "run_task g (LeaveModule module) st queue = (assign_index2 st module, queue)"
| "run_task g (VisitDependency d) st queue =
     (case d_module d of
        Some module \<Rightarrow> (st, EnterModule module # queue)
      | None \<Rightarrow> (st, queue))"
| "run_task g (VisitBlock b) st queue = (st, block_tasks b @ queue)"

text \<open>Termination: a round either gives an index to a module that had none, or
  replaces a closure by lighter ones.\<close>

fun block_weight :: "('m, 'c) block \<Rightarrow> nat" where
  "block_weight (Block vs ds bs cs) =
     Suc (2 * length (concat vs @ ds) + sum_list (map block_weight bs))"

fun task_weight :: "('m, 'c) index_task \<Rightarrow> nat" where
  "task_weight (EnterModule m) = 1"
| "task_weight (LeaveModule m) = 1"
| "task_weight (VisitDependency d) = 2"
| "task_weight (VisitBlock b) = block_weight b"

definition queue_weight :: "('m, 'c) index_task list \<Rightarrow> nat" where
  "queue_weight q = sum_list (map task_weight q)"

lemma queue_weight_simps [simp]:
  "queue_weight [] = 0"
  "queue_weight (t # q) = task_weight t + queue_weight q"
  "queue_weight (p @ q) = queue_weight p + queue_weight q"
  by (simp_all add: queue_weight_def)

lemma weight_dependencies:
  "queue_weight (map VisitDependency ds) = 2 * length ds"
  by (induction ds) simp_all

lemma weight_blocks:
  "queue_weight (map VisitBlock bs) = sum_list (map block_weight bs)"
  by (induction bs) simp_all

lemma block_tasks_weight: "Suc (queue_weight (block_tasks b)) = block_weight b"
  by (cases b) (simp add: block_tasks_def all_dependencies_def weight_dependencies weight_blocks)

lemma run_task_decreases:
  fixes st :: "('m::finite) indexing"
  assumes "run_task g task st queue = (st', queue')"
  shows "unset_count (m_index st') < unset_count (m_index st)
       \<or> (unset_count (m_index st') = unset_count (m_index st)
          \<and> queue_weight queue' < queue_weight (task # queue))"
proof (cases task)
  case (EnterModule module)
  show ?thesis
  proof (cases "m_index st module")
    case None
    with EnterModule assms have "m_index st' = (m_index st)(module \<mapsto> nextFreeModuleIndex st)"
      by (auto simp: assign_index_def)
    with None show ?thesis by (simp add: unset_count_set)
  next
    case (Some i)
    with EnterModule assms show ?thesis by auto
  qed
next
  case (LeaveModule module)
  with assms show ?thesis by (auto simp: assign_index2_def)
next
  case (VisitDependency d)
  with assms show ?thesis by (auto split: option.splits)
next
  case (VisitBlock b)
  with assms block_tasks_weight [of b] show ?thesis by auto
qed

function assignIndex_loop ::
  "('m::finite \<Rightarrow> ('m, 'c) block) \<Rightarrow> 'm indexing \<Rightarrow> ('m, 'c) index_task list \<Rightarrow> 'm indexing" where
  "assignIndex_loop g st [] = st"
| "assignIndex_loop g st (task # queue) =
     (case run_task g task st queue of (st', queue') \<Rightarrow> assignIndex_loop g st' queue')"
  by pat_completeness auto
termination
proof (relation "inv_image (less_than <*lex*> less_than)
    (\<lambda>(g, st, queue). (unset_count (m_index st), queue_weight queue))", goal_cases)
  case 1
  show ?case by (intro wf_inv_image wf_lex_prod wf_less_than)
next
  case (2 g st task queue st' queue')
  then have "run_task g task st queue = (st', queue')" by simp
  from run_task_decreases [OF this] show ?case by auto
qed


text \<open>What every round preserves holds when the loop ends.\<close>

lemma assignIndex_loop_invariant:
  assumes step: "\<And>task st q st' q'.
      P st (task # q) \<Longrightarrow> run_task g task st q = (st', q') \<Longrightarrow> P st' q'"
    and start: "P st q"
  shows "P (assignIndex_loop g st q) []"
  using assms
proof (induction g st q rule: assignIndex_loop.induct)
  case (1 g st)
  then show ?case by simp
next
  case (2 g st task queue)
  obtain st' queue' where r: "run_task g task st queue = (st', queue')"
    by (cases "run_task g task st queue")
  have "P st' queue'" using "2.prems"(2) r by (rule "2.prems"(1))
  with "2.IH" [OF r [symmetric] "2.prems"(1)] show ?case
    by (simp add: r)
qed


subsection \<open>The assignments form a numbering\<close>

definition log_ok :: "('m \<times> nat) list \<Rightarrow> ('m \<rightharpoonup> nat) \<Rightarrow> nat \<Rightarrow> bool" where
  "log_ok log f n \<longleftrightarrow> map snd log = [0 ..< n] \<and> distinct (map fst log) \<and> f = map_of log"

lemma log_ok_append:
  assumes "log_ok log f n" and "f m = None"
  shows "log_ok (log @ [(m, n)]) (f(m \<mapsto> n)) (Suc n)"
proof -
  from assms have fresh: "m \<notin> fst ` set log"
    by (simp add: log_ok_def map_of_eq_None_iff)
  from assms have none: "map_of log m = None"
    by (simp add: log_ok_def)
  have "map_of (log @ [(m, n)]) = (map_of log)(m \<mapsto> n)"
  proof
    fix x
    show "map_of (log @ [(m, n)]) x = ((map_of log)(m \<mapsto> n)) x"
      using none by (cases "x = m") (simp_all add: map_add_def split: option.splits)
  qed
  with assms(1) fresh show ?thesis by (simp add: log_ok_def)
qed

lemma log_ok_dom: "log_ok log f n \<Longrightarrow> dom f = fst ` set log"
  by (simp add: log_ok_def dom_map_of_conv_image_fst)

lemma log_ok_card:
  assumes "log_ok log f n"
  shows "card (dom f) = n"
proof -
  from assms have "length log = n"
    unfolding log_ok_def by (metis length_map length_upt minus_nat.diff_0)
  moreover from assms have "card (fst ` set log) = length log"
    unfolding log_ok_def by (metis distinct_card length_map set_map)
  ultimately show ?thesis using log_ok_dom [OF assms] by simp
qed

definition index_inv :: "'m indexing \<Rightarrow> bool" where
  "index_inv st \<longleftrightarrow> log_ok (index_assigned st) (m_index st) (nextFreeModuleIndex st)"

lemma index_inv_step:
  assumes "index_inv st" and "run_task g task st q = (st', q')"
  shows "index_inv st'"
proof (cases task)
  case (EnterModule module)
  show ?thesis
  proof (cases "m_index st module")
    case None
    with EnterModule assms(2) have "st' = assign_index st module" by simp
    with log_ok_append [OF assms(1) [unfolded index_inv_def] None] show ?thesis
      by (simp add: index_inv_def assign_index_def)
  next
    case (Some i)
    with EnterModule assms show ?thesis by simp
  qed
next
  case (LeaveModule module)
  with assms show ?thesis by (auto simp: index_inv_def assign_index2_def)
next
  case (VisitDependency d)
  with assms show ?thesis by (auto split: option.splits)
next
  case (VisitBlock b)
  with assms show ?thesis by auto
qed

text \<open>The modules whose \<open>index2\<close> is still to be assigned are on the queue, once each.\<close>

fun leaves :: "('m, 'c) index_task list \<Rightarrow> 'm list" where
  "leaves [] = []"
| "leaves (LeaveModule m # q) = m # leaves q"
| "leaves (task # q) = leaves q"

lemma leaves_append [simp]: "leaves (p @ q) = leaves p @ leaves q"
  by (induction p rule: leaves.induct) simp_all

lemma leaves_block_tasks [simp]: "leaves (block_tasks b) = []"
proof -
  have "leaves (map VisitDependency ds) = []" for ds :: "'a dependency list"
    by (induction ds) simp_all
  moreover have "leaves (map VisitBlock bs) = []" for bs :: "('a, 'b) block list"
    by (induction bs) simp_all
  ultimately show ?thesis by (simp add: block_tasks_def)
qed

definition index2_inv :: "'m indexing \<Rightarrow> ('m, 'c) index_task list \<Rightarrow> bool" where
  "index2_inv st q \<longleftrightarrow>
     log_ok (index2_assigned st) (m_index2 st) (nextFreeModuleIndex2 st)
     \<and> distinct (leaves q)
     \<and> set (leaves q) \<inter> dom (m_index2 st) = {}
     \<and> set (leaves q) \<union> dom (m_index2 st) = dom (m_index st)"

lemma index2_inv_step:
  assumes inv: "index2_inv st (task # q)" and run: "run_task g task st q = (st', q')"
  shows "index2_inv st' q'"
proof -
  from inv have log: "log_ok (index2_assigned st) (m_index2 st) (nextFreeModuleIndex2 st)"
    and dist: "distinct (leaves (task # q))"
    and disj: "set (leaves (task # q)) \<inter> dom (m_index2 st) = {}"
    and cover: "set (leaves (task # q)) \<union> dom (m_index2 st) = dom (m_index st)"
    by (simp_all add: index2_inv_def)
  show ?thesis
  proof (cases task)
    case (EnterModule module)
    show ?thesis
    proof (cases "m_index st module")
      case None
      then have "module \<notin> dom (m_index st)" by auto
      with cover have new: "module \<notin> set (leaves q)" "module \<notin> dom (m_index2 st)"
        using EnterModule by auto
      from EnterModule None run have st': "st' = assign_index st module"
        and q': "q' = block_tasks (g module) @ LeaveModule module # q"
        by simp_all
      show ?thesis
        unfolding index2_inv_def st' q'
        using log dist disj cover new EnterModule
        by (auto simp: assign_index_def)
    next
      case (Some i)
      with EnterModule run have "st' = st" "q' = q" by simp_all
      with inv EnterModule show ?thesis by (simp add: index2_inv_def)
    qed
  next
    case (LeaveModule module)
    with run have st': "st' = assign_index2 st module" and q': "q' = q" by simp_all
    from disj LeaveModule have unset: "m_index2 st module = None" by auto
    from dist LeaveModule have gone: "module \<notin> set (leaves q)" by simp
    from log_ok_append [OF log unset]
    have "log_ok (index2_assigned st') (m_index2 st') (nextFreeModuleIndex2 st')"
      by (simp add: st' assign_index2_def)
    moreover have "distinct (leaves q')" using dist LeaveModule q' by simp
    moreover have "set (leaves q') \<inter> dom (m_index2 st') = {}"
      using disj gone LeaveModule by (auto simp: st' q' assign_index2_def)
    moreover have "set (leaves q') \<union> dom (m_index2 st') = dom (m_index st')"
      using cover LeaveModule by (auto simp: st' q' assign_index2_def)
    ultimately show ?thesis by (simp add: index2_inv_def)
  next
    case (VisitDependency d)
    with run inv show ?thesis by (auto simp: index2_inv_def split: option.splits)
  next
    case (VisitBlock b)
    with run inv show ?thesis by (auto simp: index2_inv_def)
  qed
qed


subsection \<open>The numbered modules are the reachable ones\<close>

definition reachable :: "('m \<Rightarrow> ('m, 'c) block) \<Rightarrow> 'm set \<Rightarrow> 'm set" where
  "reachable g R = {m. \<exists>e \<in> R. \<exists>k. hops g k e m}"

lemma reachable_root: "e \<in> R \<Longrightarrow> e \<in> reachable g R"
proof -
  assume "e \<in> R"
  moreover have "hops g 0 e e" by simp
  ultimately show ?thesis unfolding reachable_def by blast
qed

lemma reachable_step:
  assumes "m \<in> reachable g R" and "imports_module (g m) t"
  shows "t \<in> reachable g R"
proof -
  from assms(1) obtain e k where "e \<in> R" "hops g k e m" unfolding reachable_def by blast
  with hops_snoc [OF this(2) assms(2)] show ?thesis unfolding reachable_def by blast
qed

lemma reachable_mono: "R \<subseteq> S \<Longrightarrow> reachable g R \<subseteq> reachable g S"
  unfolding reachable_def by blast

lemma closed_contains_hops:
  assumes closed: "\<And>m t. m \<in> D \<Longrightarrow> imports_module (g m) t \<Longrightarrow> t \<in> D"
  shows "a \<in> D \<Longrightarrow> hops g k a b \<Longrightarrow> b \<in> D"
proof (induction k arbitrary: a)
  case 0
  then show ?case by simp
next
  case (Suc k)
  from Suc.prems(2) obtain t where t: "imports_module (g a) t" "hops g k t b" by auto
  from closed [OF Suc.prems(1) t(1)] have "t \<in> D" .
  from Suc.IH [OF this t(2)] show ?case .
qed

lemma closed_contains_reachable:
  assumes "R \<subseteq> D" and "\<And>m t. m \<in> D \<Longrightarrow> imports_module (g m) t \<Longrightarrow> t \<in> D"
  shows "reachable g R \<subseteq> D"
proof
  fix b assume "b \<in> reachable g R"
  then obtain e k where e: "e \<in> R" "hops g k e b" unfolding reachable_def by blast
  from e(1) assms(1) have "e \<in> D" by blast
  then show "b \<in> D" using e(2)
    by (rule closed_contains_hops [rotated]) (rule assms(2))
qed

fun pending :: "('m, 'c) index_task \<Rightarrow> 'm set" where
  "pending (EnterModule m) = {m}"
| "pending (LeaveModule m) = {}"
| "pending (VisitDependency d) = (case d_module d of None \<Rightarrow> {} | Some m \<Rightarrow> {m})"
| "pending (VisitBlock b) = {t. imports_module b t}"

definition pendings :: "('m, 'c) index_task list \<Rightarrow> 'm set" where
  "pendings q = (\<Union>task \<in> set q. pending task)"

lemma pendings_simps [simp]:
  "pendings [] = {}"
  "pendings (task # q) = pending task \<union> pendings q"
  "pendings (p @ q) = pendings p \<union> pendings q"
  by (auto simp: pendings_def)

lemma pendings_block_tasks [simp]: "pendings (block_tasks b) = {t. imports_module b t}"
proof (cases b)
  case (Block vs ds bs cs)
  have "pendings (map VisitDependency xs) = {t. \<exists>d \<in> set xs. d_module d = Some t}"
    for xs :: "'a dependency list"
    by (induction xs) (auto split: option.splits)
  moreover have "pendings (map VisitBlock xs) = {t. \<exists>x \<in> set xs. imports_module x t}"
    for xs :: "('a, 'b) block list"
    by (induction xs) auto
  ultimately show ?thesis
    using Block by (auto simp: block_tasks_def all_dependencies_def)
qed

definition reach_inv ::
  "('m \<Rightarrow> ('m, 'c) block) \<Rightarrow> 'm set \<Rightarrow> 'm indexing \<Rightarrow> ('m, 'c) index_task list \<Rightarrow> bool" where
  "reach_inv g R st q \<longleftrightarrow>
     dom (m_index st) \<subseteq> reachable g R
     \<and> pendings q \<subseteq> reachable g R
     \<and> R \<subseteq> dom (m_index st) \<union> pendings q
     \<and> (\<forall>m t. m \<in> dom (m_index st) \<longrightarrow> imports_module (g m) t
           \<longrightarrow> t \<in> dom (m_index st) \<union> pendings q)"

lemma reach_inv_step:
  assumes inv: "reach_inv g R st (task # q)" and run: "run_task g task st q = (st', q')"
  shows "reach_inv g R st' q'"
proof -
  from inv have sound: "dom (m_index st) \<subseteq> reachable g R"
    and psound: "pending task \<union> pendings q \<subseteq> reachable g R"
    and roots: "R \<subseteq> dom (m_index st) \<union> (pending task \<union> pendings q)"
    and closed: "\<And>m t. m \<in> dom (m_index st) \<Longrightarrow> imports_module (g m) t
           \<Longrightarrow> t \<in> dom (m_index st) \<union> (pending task \<union> pendings q)"
    by (simp_all add: reach_inv_def)
  show ?thesis
  proof (cases task)
    case (EnterModule module)
    show ?thesis
    proof (cases "m_index st module")
      case None
      from EnterModule None run have st': "dom (m_index st') = insert module (dom (m_index st))"
        and q': "pendings q' = {t. imports_module (g module) t} \<union> pendings q"
        by (auto simp: assign_index_def)
      from psound EnterModule have here: "module \<in> reachable g R" by simp
      have 1: "dom (m_index st') \<subseteq> reachable g R"
        using sound here st' by simp
      have 2: "pendings q' \<subseteq> reachable g R"
        using psound reachable_step [OF here] q' by auto
      have 3: "R \<subseteq> dom (m_index st') \<union> pendings q'"
        using roots EnterModule st' q' by auto
      have 4: "t \<in> dom (m_index st') \<union> pendings q'"
        if "m \<in> dom (m_index st')" "imports_module (g m) t" for m t
      proof (cases "m = module")
        case True
        with that(2) q' show ?thesis by simp
      next
        case False
        with that(1) st' have "m \<in> dom (m_index st)" by simp
        from closed [OF this that(2)] EnterModule st' q' show ?thesis by auto
      qed
      from 1 2 3 4 show ?thesis unfolding reach_inv_def by blast
    next
      case (Some i)
      with EnterModule run have eq: "st' = st" "q' = q" by simp_all
      from Some have dom: "module \<in> dom (m_index st)" by auto
      have 3: "R \<subseteq> dom (m_index st) \<union> pendings q"
        using roots EnterModule dom by auto
      have 4: "t \<in> dom (m_index st) \<union> pendings q"
        if "m \<in> dom (m_index st)" "imports_module (g m) t" for m t
        using closed [OF that] EnterModule dom by auto
      from sound psound 3 4 show ?thesis unfolding reach_inv_def eq by simp
    qed
  next
    case (LeaveModule module)
    with run have eq: "m_index st' = m_index st" "q' = q" by (auto simp: assign_index2_def)
    from inv LeaveModule show ?thesis by (simp add: reach_inv_def eq)
  next
    case (VisitDependency d)
    show ?thesis
    proof (cases "d_module d")
      case None
      with VisitDependency run have eq: "st' = st" "q' = q" by simp_all
      from inv VisitDependency None show ?thesis by (simp add: reach_inv_def eq)
    next
      case (Some module)
      with VisitDependency run have eq: "st' = st" "q' = EnterModule module # q" by simp_all
      from inv VisitDependency Some show ?thesis by (simp add: reach_inv_def eq)
    qed
  next
    case (VisitBlock b)
    with run have eq: "st' = st" "q' = block_tasks b @ q" by simp_all
    from inv VisitBlock show ?thesis by (simp add: reach_inv_def eq)
  qed
qed

lemma reach_inv_done:
  assumes "reach_inv g R st []"
  shows "dom (m_index st) = reachable g R"
proof
  show "dom (m_index st) \<subseteq> reachable g R" using assms by (simp add: reach_inv_def)
  have "R \<subseteq> dom (m_index st)" using assms by (simp add: reach_inv_def)
  moreover have "t \<in> dom (m_index st)" if "m \<in> dom (m_index st)" "imports_module (g m) t" for m t
    using assms that unfolding reach_inv_def by auto
  ultimately show "reachable g R \<subseteq> dom (m_index st)"
    by (rule closed_contains_reachable)
qed


subsection \<open>The loop of \<open>seal\<close>\<close>

text \<open>
  Lines 542--556 as far as they concern the indexer: the counters are reset, then for
  each prepared chunk \<open>assignIndex\<close> and \<open>assignDepth\<close> are run from its module. The other
  calls of the loop body build chunks and read and write none of these fields.
  A compilation is \<open>unindexed\<close> when no module has an index, an index2 or a depth, as
  after the modules were created or unsealed, and nothing has been assigned yet.
\<close>

definition assignIndex ::
  "('m::finite \<Rightarrow> ('m, 'c) block) \<Rightarrow> 'm indexing \<Rightarrow> 'm \<Rightarrow> 'm indexing" where
  "assignIndex g st module = assignIndex_loop g st [EnterModule module]"

definition seal_entry ::
  "('m::finite \<Rightarrow> ('m, 'c) block) \<Rightarrow> 'm \<Rightarrow> 'm indexing \<Rightarrow> 'm indexing" where
  "seal_entry g module st = assignDepth g (assignIndex g st module) module"

definition seal_indexing ::
  "('m::finite \<Rightarrow> ('m, 'c) block) \<Rightarrow> 'm list \<Rightarrow> 'm indexing \<Rightarrow> 'm indexing" where
  "seal_indexing g entry_modules st =
     fold (seal_entry g) entry_modules
       (st\<lparr>nextFreeModuleIndex := 0, nextFreeModuleIndex2 := 0\<rparr>)"

definition unindexed :: "'m indexing \<Rightarrow> bool" where
  "unindexed st \<longleftrightarrow>
     m_index st = Map.empty \<and> m_index2 st = Map.empty \<and> m_depth st = Map.empty
     \<and> index_assigned st = [] \<and> index2_assigned st = []"

definition sealed_inv :: "('m \<Rightarrow> ('m, 'c) block) \<Rightarrow> 'm set \<Rightarrow> 'm indexing \<Rightarrow> bool" where
  "sealed_inv g R st \<longleftrightarrow>
     index_inv st
     \<and> index2_inv st ([] :: ('m, 'c) index_task list)
     \<and> reach_inv g R st []
     \<and> depth_inv g R (m_depth st) []"

lemma run_task_depth:
  "run_task g task st q = (st', q') \<Longrightarrow> m_depth st' = m_depth st"
  by (cases task) (auto simp: assign_index_def assign_index2_def split: option.splits)

lemma assignIndex_depth: "m_depth (assignIndex g st e) = m_depth st"
proof -
  have "m_depth (assignIndex_loop g st [EnterModule e]) = m_depth st"
    by (rule assignIndex_loop_invariant [where P = "\<lambda>st' q. m_depth st' = m_depth st"])
      (simp_all add: run_task_depth)
  then show ?thesis by (simp add: assignIndex_def)
qed

lemma assignIndex_index_inv: "index_inv st \<Longrightarrow> index_inv (assignIndex g st e)"
  unfolding assignIndex_def
  by (rule assignIndex_loop_invariant [where P = "\<lambda>st q. index_inv st"])
    (auto intro: index_inv_step)

lemma assignIndex_index2_inv:
  assumes "index2_inv st ([] :: ('m, 'c) index_task list)"
  shows "index2_inv (assignIndex (g :: 'm::finite \<Rightarrow> ('m, 'c) block) st e)
           ([] :: ('m, 'c) index_task list)"
  unfolding assignIndex_def
proof (rule assignIndex_loop_invariant [where P = index2_inv])
  show "index2_inv st [EnterModule e :: ('m, 'c) index_task]"
    using assms by (simp add: index2_inv_def)
qed (rule index2_inv_step)

lemma assignIndex_reach_inv:
  assumes "reach_inv g R st []"
  shows "reach_inv g (insert e R) (assignIndex g st e) []"
  unfolding assignIndex_def
proof (rule assignIndex_loop_invariant [where P = "reach_inv g (insert e R)"])
  have "reachable g R \<subseteq> reachable g (insert e R)" by (rule reachable_mono) blast
  moreover have "e \<in> reachable g (insert e R)" by (rule reachable_root) simp
  ultimately show "reach_inv g (insert e R) st [EnterModule e]"
    using assms unfolding reach_inv_def by auto
qed (rule reach_inv_step)

lemma seal_entry_inv:
  assumes "sealed_inv g R st"
  shows "sealed_inv g (insert e R) (seal_entry g e st)"
proof -
  let ?st = "assignIndex g st e"
  from assms have i: "index_inv ?st"
    and i2: "index2_inv ?st ([] :: ('a, 'b) index_task list)"
    and r: "reach_inv g (insert e R) ?st []"
    unfolding sealed_inv_def
    by (simp_all add: assignIndex_index_inv assignIndex_index2_inv assignIndex_reach_inv)
  from assms have "depth_inv g R (m_depth ?st) []"
    by (simp add: sealed_inv_def assignIndex_depth)
  then have d: "depth_inv g (insert e R) (assignDepth_loop g (m_depth ?st) [(e, 0)]) []"
    by (rule assignDepth_loop_entry)
  from i i2 r d show ?thesis
    by (simp add: sealed_inv_def seal_entry_def assignDepth_def index_inv_def index2_inv_def
        reach_inv_def)
qed

lemma seal_fold_inv:
  "sealed_inv g R st \<Longrightarrow> sealed_inv g (set es \<union> R) (fold (seal_entry g) es st)"
proof (induction es arbitrary: R st)
  case Nil
  then show ?case by simp
next
  case (Cons e es)
  from Cons.IH [OF seal_entry_inv [OF Cons.prems, of e]] show ?case by simp
qed

lemma seal_indexing_inv:
  assumes "unindexed st"
  shows "sealed_inv g (set es) (seal_indexing g es st)"
proof -
  have "sealed_inv g {} (st\<lparr>nextFreeModuleIndex := 0, nextFreeModuleIndex2 := 0\<rparr>)"
    using assms depth_inv_empty [of g]
    by (simp add: sealed_inv_def unindexed_def index_inv_def index2_inv_def reach_inv_def
        log_ok_def reachable_def)
  from seal_fold_inv [OF this, of es] show ?thesis by (simp add: seal_indexing_def)
qed

text \<open>
  C6. In a seal pass over an unindexed compilation, \<open>index\<close> is assigned to each module
  reachable from the entry modules and to no other, to none twice, and the values
  assigned are 0, 1, ..., N - 1 in this order, N the number of reachable modules; the
  same holds for \<open>index2\<close>. The fields hold the values assigned.
\<close>

theorem assignIndex_numbering:
  assumes "unindexed st"
  shows "distinct (map fst (index_assigned (seal_indexing g es st)))
       \<and> fst ` set (index_assigned (seal_indexing g es st)) = reachable g (set es)
       \<and> map snd (index_assigned (seal_indexing g es st)) = [0 ..< card (reachable g (set es))]
       \<and> distinct (map fst (index2_assigned (seal_indexing g es st)))
       \<and> fst ` set (index2_assigned (seal_indexing g es st)) = reachable g (set es)
       \<and> map snd (index2_assigned (seal_indexing g es st)) = [0 ..< card (reachable g (set es))]
       \<and> m_index (seal_indexing g es st) = map_of (index_assigned (seal_indexing g es st))
       \<and> m_index2 (seal_indexing g es st) = map_of (index2_assigned (seal_indexing g es st))"
proof -
  let ?st = "seal_indexing g es st"
  from seal_indexing_inv [OF assms, of g es]
  have l1: "log_ok (index_assigned ?st) (m_index ?st) (nextFreeModuleIndex ?st)"
    and l2: "log_ok (index2_assigned ?st) (m_index2 ?st) (nextFreeModuleIndex2 ?st)"
    and same: "dom (m_index2 ?st) = dom (m_index ?st)"
    and r: "reach_inv g (set es) ?st []"
    by (simp_all add: sealed_inv_def index_inv_def index2_inv_def)
  have d1: "dom (m_index ?st) = reachable g (set es)" using r by (rule reach_inv_done)
  have d2: "dom (m_index2 ?st) = reachable g (set es)" using same d1 by simp
  have n1: "nextFreeModuleIndex ?st = card (reachable g (set es))"
    using log_ok_card [OF l1] d1 by simp
  have n2: "nextFreeModuleIndex2 ?st = card (reachable g (set es))"
    using log_ok_card [OF l2] d2 by simp
  from l1 l2 log_ok_dom [OF l1] log_ok_dom [OF l2] d1 d2 n1 n2 show ?thesis
    by (simp add: log_ok_def)
qed

text \<open>
  C2. After a seal pass over an unindexed compilation, the depth of a module is \<open>d\<close>
  exactly when some entry module reaches it in \<open>d\<close> dependency hops and none does in
  fewer; a module that no entry reaches has no depth.
\<close>

theorem assignDepth_minimal:
  assumes "unindexed st"
  shows "m_depth (seal_indexing g es st) m = Some d \<longleftrightarrow>
     (\<exists>e \<in> set es. hops g d e m) \<and> (\<forall>k < d. \<forall>e \<in> set es. \<not> hops g k e m)"
proof -
  from seal_indexing_inv [OF assms, of g es]
  have "depth_inv g (set es) (m_depth (seal_indexing g es st)) []"
    by (simp add: sealed_inv_def)
  then show ?thesis by (rule closed_minimal)
qed


text \<open>
  Four modules: the entry imports \<open>C\<close> through a variable and \<open>A\<close> directly, \<open>A\<close> imports
  \<open>C\<close> in a nested block, and \<open>X\<close> is not reachable. \<open>assignDepth\<close> first reaches \<open>C\<close>
  through \<open>A\<close>, with depth 2, and then lowers it to 1.
\<close>

datatype demo_node = NodeEntry | NodeA | NodeC | NodeX

instantiation demo_node :: finite
begin

instance
proof
  have eq: "(UNIV :: demo_node set) = {NodeEntry, NodeA, NodeC, NodeX}"
    using demo_node.exhaust by auto
  show "finite (UNIV :: demo_node set)" unfolding eq by simp
qed

end

definition dep_on :: "'m \<Rightarrow> 'm dependency" where
  "dep_on m = \<lparr>d_module = Some m, d_optional = False, d_weak = False\<rparr>"

fun demo_graph :: "demo_node \<Rightarrow> (demo_node, nat) block" where
  "demo_graph NodeEntry = Block [[dep_on NodeC]] [dep_on NodeA] [] None"
| "demo_graph NodeA = Block [] [] [Block [] [dep_on NodeC] [] (Some [1])] None"
| "demo_graph NodeC = Block [] [] [] None"
| "demo_graph NodeX = Block [] [dep_on NodeA] [] None"

definition demo_indexing :: "demo_node indexing" where
  "demo_indexing =
     \<lparr>m_index = Map.empty, m_index2 = Map.empty, m_depth = Map.empty,
      nextFreeModuleIndex = 7, nextFreeModuleIndex2 = 7,
      index_assigned = [], index2_assigned = []\<rparr>"

lemma demo_unindexed: "unindexed demo_indexing"
  by (simp add: unindexed_def demo_indexing_def)

lemma demo_sealed:
  "index_assigned (seal_indexing demo_graph [NodeEntry] demo_indexing) =
     [(NodeEntry, 0), (NodeC, 1), (NodeA, 2)]"
  "index2_assigned (seal_indexing demo_graph [NodeEntry] demo_indexing) =
     [(NodeC, 0), (NodeA, 1), (NodeEntry, 2)]"
  by (simp_all add: seal_indexing_def seal_entry_def assignIndex_def assignDepth_def
      demo_indexing_def block_tasks_def all_dependencies_def assign_index_def assign_index2_def
      dep_on_def numeral_2_eq_2)

theorem assignIndex_numbering_witness:
  "unindexed demo_indexing
   \<and> index_assigned (seal_indexing demo_graph [NodeEntry] demo_indexing) =
       [(NodeEntry, 0), (NodeC, 1), (NodeA, 2)]
   \<and> index2_assigned (seal_indexing demo_graph [NodeEntry] demo_indexing) =
       [(NodeC, 0), (NodeA, 1), (NodeEntry, 2)]
   \<and> reachable demo_graph (set [NodeEntry]) = {NodeEntry, NodeC, NodeA}
   \<and> card (reachable demo_graph (set [NodeEntry])) = 3"
proof -
  note main = assignIndex_numbering [OF demo_unindexed, of demo_graph "[NodeEntry]"]
  from main have "fst ` set (index_assigned (seal_indexing demo_graph [NodeEntry] demo_indexing))
      = reachable demo_graph (set [NodeEntry])" by blast
  then have r: "reachable demo_graph (set [NodeEntry]) = {NodeEntry, NodeC, NodeA}"
    by (simp add: demo_sealed)
  then have "card (reachable demo_graph (set [NodeEntry])) = 3" by simp
  with r demo_unindexed demo_sealed show ?thesis by blast
qed

theorem assignDepth_minimal_witness:
  "unindexed demo_indexing
   \<and> m_depth (seal_indexing demo_graph [NodeEntry] demo_indexing) NodeC = Some 1
   \<and> hops demo_graph 2 NodeEntry NodeC
   \<and> hops demo_graph 1 NodeEntry NodeC"
proof -
  have one: "hops demo_graph 1 NodeEntry NodeC"
    by (simp add: dep_on_def)
  have two: "hops demo_graph 2 NodeEntry NodeC"
    by (auto simp: numeral_2_eq_2 dep_on_def intro!: exI [of _ NodeA])
  have none: "\<forall>k < 1. \<forall>e \<in> set [NodeEntry]. \<not> hops demo_graph k e NodeC"
    by simp
  from assignDepth_minimal [OF demo_unindexed, of demo_graph "[NodeEntry]" NodeC 1] one none
  have "m_depth (seal_indexing demo_graph [NodeEntry] demo_indexing) NodeC = Some 1"
    by simp
  with demo_unindexed one two show ?thesis by blast
qed

end
